theory Spec2Isabelle
  imports Main "HOL-Library.Signed_Division" "HOL-Library.Multiset"
begin

section \<open>Process registry\<close>

text \<open>
  The header \<^verbatim>\<open>CPU_scheduler.h\<close> is not part of the sources at hand. The record below has
  the fields of \<^verbatim>\<open>Process\<close> that the three engines read or write. The values of a C
  \<^verbatim>\<open>int\<close> are integers of HOL, and \<open>INT_MAX\<close> is the largest value a 32-bit \<^verbatim>\<open>int\<close>
  holds.

  The clock is the one variable the engines add to with no test that bounds it. Its additions
  are taken modulo \<open>2\<^sup>3\<^sup>2\<close> into the range of \<^verbatim>\<open>int\<close> (\<open>wrap_int\<close>): the two's complement
  result, which is what the usual compilers produce where the C standard leaves signed overflow
  undefined. Every other addition or subtraction stays in range by the tests that guard it: a
  remaining time is only taken from while it is above 0, and by no more than it holds, and the
  counters stay at or below \<^verbatim>\<open>num_processes\<close> or \<^verbatim>\<open>QUEUE_MAX\<close>.
\<close>

record process =
  pid :: int
  arrival_time :: int
  burst_time :: int
  priority :: int
  remaining_time :: int
  completion_time :: int

record SchedulerContext =
  processes :: "process list"
  num_processes :: int
  time_quantum :: int

definition INT_MAX :: int where
  "INT_MAX = 2147483647"

definition wrap_int :: "int \<Rightarrow> int" where
  "wrap_int x = (x + 2147483648) mod 4294967296 - 2147483648"

datatype fault = IndexOutOfRange

text \<open>The outcome of one pass through the body of a \<^verbatim>\<open>while\<close> loop: \<^verbatim>\<open>break\<close>, or the
  state with which the loop condition is tested again.\<close>

datatype 's flow = Break | Next 's

text \<open>The local variables the engines share: the process array, the clock and the counter of
  completed processes (\<^verbatim>\<open>current_time\<close> is called \<^verbatim>\<open>time\<close> in \<^verbatim>\<open>round_robin\<close>).\<close>

record sched_state =
  procs :: "process list"
  current_time :: int
  completed :: nat

text \<open>Modelled from the spec: \<^verbatim>\<open>reset_process_states\<close> is declared in the missing header and
  defined outside the sources at hand. The spec gives its contract: it restores every process's
  \<open>remaining_time\<close> to \<open>burst_time\<close> and clears \<open>completion_time\<close>.\<close>

definition reset_process :: "process \<Rightarrow> process" where
  "reset_process p = p\<lparr>remaining_time := burst_time p, completion_time := 0\<rparr>"

definition reset_process_states :: "SchedulerContext \<Rightarrow> SchedulerContext" where
  "reset_process_states ctx = ctx\<lparr>processes := map reset_process (processes ctx)\<rparr>"

text \<open>Modelled from the spec: \<^verbatim>\<open>display_results\<close> is the results reporter, an external
  collaborator that consumes the final completion times under a display name. The model keeps
  the context as it is and records the name the reporter was called with.\<close>

definition display_results :: "SchedulerContext \<Rightarrow> string \<Rightarrow> SchedulerContext \<times> string list" where
  "display_results ctx label = (ctx, [label])"

text \<open>\<^verbatim>\<open>for (i = 0; i < n; i++) processes[i].remaining_time = processes[i].burst_time;\<close>
  after \<open>k\<close> rounds.\<close>

fun init_remaining :: "process list \<Rightarrow> nat \<Rightarrow> process list" where
  "init_remaining ps 0 = ps"
| "init_remaining ps (Suc k) =
     (let ps1 = init_remaining ps k
      in ps1[k := (ps1 ! k)\<lparr>remaining_time := burst_time (ps1 ! k)\<rparr>])"

text \<open>The idle scan of \<^verbatim>\<open>shortest_remaining_time_first\<close> and \<^verbatim>\<open>priority_preemptive_rr\<close>:
  the value of \<^verbatim>\<open>next_arrival\<close> after the indices below \<open>k\<close> have been visited.\<close>

fun next_arrival_scan :: "process list \<Rightarrow> int \<Rightarrow> nat \<Rightarrow> int" where
  "next_arrival_scan ps t 0 = INT_MAX"
| "next_arrival_scan ps t (Suc k) =
     (let next_arrival = next_arrival_scan ps t k
      in if remaining_time (ps ! k) > 0 \<and> arrival_time (ps ! k) > t \<and>
            arrival_time (ps ! k) < next_arrival
         then arrival_time (ps ! k) else next_arrival)"

section \<open>Shortest remaining time first\<close>

text \<open>One round of the selection loop for index \<open>i\<close>, on the pair
  \<open>(shortest, min_remaining_time)\<close>. The tie-break branch reads \<^verbatim>\<open>processes[shortest]\<close>;
  a read outside \<open>[0, n)\<close> is the fault \<open>IndexOutOfRange\<close>.\<close>

definition srt_consider :: "process list \<Rightarrow> int \<Rightarrow> nat \<Rightarrow> int \<times> int \<Rightarrow> nat \<Rightarrow> fault + int \<times> int" where
  "srt_consider ps t n acc i =
     (case acc of (shortest, min_remaining_time) \<Rightarrow>
        let p = ps ! i in
        if arrival_time p \<le> t \<and> remaining_time p > 0 then
          if remaining_time p < min_remaining_time then Inr (int i, remaining_time p)
          else if remaining_time p = min_remaining_time then
            (if shortest < 0 \<or> int n \<le> shortest then Inl IndexOutOfRange
             else
               let best = ps ! nat shortest in
               if arrival_time p < arrival_time best then Inr (int i, min_remaining_time)
               else if arrival_time p = arrival_time best then
                 (if pid p < pid best then Inr (int i, min_remaining_time) else Inr acc)
               else Inr acc)
          else Inr acc
        else Inr acc)"

text \<open>The selection loop after the indices below \<open>k\<close> have been visited.\<close>

fun srt_scan :: "process list \<Rightarrow> int \<Rightarrow> nat \<Rightarrow> nat \<Rightarrow> fault + int \<times> int" where
  "srt_scan ps t n 0 = Inr (- 1, INT_MAX)"
| "srt_scan ps t n (Suc k) =
     (case srt_scan ps t n k of
        Inl e \<Rightarrow> Inl e
      | Inr acc \<Rightarrow> srt_consider ps t n acc k)"

text \<open>Executing \<^verbatim>\<open>processes[i]\<close> for one time unit (the tail of the loop body):
  \<^verbatim>\<open>remaining_time--\<close>, \<^verbatim>\<open>current_time++\<close> in the arithmetic of \<^verbatim>\<open>int\<close>, and the
  completion test, which writes the new clock value.\<close>

definition run_unit :: "sched_state \<Rightarrow> nat \<Rightarrow> sched_state" where
  "run_unit s i =
     (let ps1 = (procs s)[i := (procs s ! i)\<lparr>remaining_time := remaining_time (procs s ! i) - 1\<rparr>];
          t1 = wrap_int (current_time s + 1)
      in if remaining_time (ps1 ! i) = 0
         then \<lparr>procs = ps1[i := (ps1 ! i)\<lparr>completion_time := t1\<rparr>], current_time = t1,
               completed = completed s + 1\<rparr>
         else \<lparr>procs = ps1, current_time = t1, completed = completed s\<rparr>)"

text \<open>The body of the main loop.\<close>

definition srt_iteration :: "nat \<Rightarrow> sched_state \<Rightarrow> fault + sched_state flow" where
  "srt_iteration n s =
     (case srt_scan (procs s) (current_time s) n n of
        Inl e \<Rightarrow> Inl e
      | Inr (shortest, min_remaining_time) \<Rightarrow>
          if shortest = - 1 then
            (let next_arrival = next_arrival_scan (procs s) (current_time s) n
             in if next_arrival \<noteq> INT_MAX then Inr (Next (s\<lparr>current_time := next_arrival\<rparr>))
                else Inr Break)
          else Inr (Next (run_unit s (nat shortest))))"

partial_function (option) srt_loop :: "nat \<Rightarrow> sched_state \<Rightarrow> (fault + sched_state) option" where
  [code]: "srt_loop n s =
     (if completed s < n then
        (case srt_iteration n s of
           Inl e \<Rightarrow> Some (Inl e)
         | Inr Break \<Rightarrow> Some (Inr s)
         | Inr (Next s') \<Rightarrow> srt_loop n s')
      else Some (Inr s))"

text \<open>The state at the head of the main loop (the same in
  \<^verbatim>\<open>priority_preemptive_rr\<close>), for a context that has been reset.\<close>

definition loop_start :: "SchedulerContext \<Rightarrow> sched_state" where
  "loop_start ctx =
     \<lparr>procs = init_remaining (processes ctx) (nat (num_processes ctx)),
      current_time = 0, completed = 0\<rparr>"

definition shortest_remaining_time_first ::
    "SchedulerContext \<Rightarrow> (fault + SchedulerContext \<times> string list) option" where
  "shortest_remaining_time_first ctx0 =
     (let ctx = reset_process_states ctx0;
          n = nat (num_processes ctx)
      in case srt_loop n (loop_start ctx) of
           None \<Rightarrow> None
         | Some (Inl e) \<Rightarrow> Some (Inl e)
         | Some (Inr s) \<Rightarrow>
             Some (Inr (display_results (ctx\<lparr>processes := procs s\<rparr>)
                          ''Shortest-Remaining_Time-First (SRTF)'')))"

section \<open>Priority, preemptive, with round robin among equals\<close>

text \<open>One round of the collection loop for index \<open>i\<close>, on the pair
  \<open>(highest_priority, ready_processes)\<close>; the list holds the first \<^verbatim>\<open>ready_count\<close>
  entries of the array \<^verbatim>\<open>ready_processes\<close>.\<close>

definition prio_consider :: "process list \<Rightarrow> int \<Rightarrow> int \<times> nat list \<Rightarrow> nat \<Rightarrow> int \<times> nat list" where
  "prio_consider ps t acc i =
     (case acc of (highest_priority, ready_processes) \<Rightarrow>
        let p = ps ! i in
        if arrival_time p \<le> t \<and> remaining_time p > 0 then
          if priority p < highest_priority then (priority p, [i])
          else if priority p = highest_priority then (highest_priority, ready_processes @ [i])
          else acc
        else acc)"

fun prio_collect :: "process list \<Rightarrow> int \<Rightarrow> nat \<Rightarrow> int \<times> nat list" where
  "prio_collect ps t 0 = (INT_MAX, [])"
| "prio_collect ps t (Suc k) = prio_consider ps t (prio_collect ps t k) k"

text \<open>The bubble sort both files use, on the first \<open>m\<close> cells of an array: \<open>bubble_inner\<close> is
  the inner loop after \<open>j\<close> rounds, \<open>bubble_outer\<close> the outer loop after \<open>i\<close> rounds, and
  \<open>swap a b\<close> is the test under which two neighbours are exchanged.\<close>

fun bubble_inner :: "('a \<Rightarrow> 'a \<Rightarrow> bool) \<Rightarrow> 'a list \<Rightarrow> nat \<Rightarrow> 'a list" where
  "bubble_inner swap xs 0 = xs"
| "bubble_inner swap xs (Suc j) =
     (let ys = bubble_inner swap xs j
      in if swap (ys ! j) (ys ! Suc j) then ys[j := ys ! Suc j, Suc j := ys ! j] else ys)"

fun bubble_outer :: "('a \<Rightarrow> 'a \<Rightarrow> bool) \<Rightarrow> 'a list \<Rightarrow> nat \<Rightarrow> nat \<Rightarrow> 'a list" where
  "bubble_outer swap xs m 0 = xs"
| "bubble_outer swap xs m (Suc i) = bubble_inner swap (bubble_outer swap xs m i) (m - 1 - i)"

definition bubble_sort :: "('a \<Rightarrow> 'a \<Rightarrow> bool) \<Rightarrow> 'a list \<Rightarrow> nat \<Rightarrow> 'a list" where
  "bubble_sort swap xs m = bubble_outer swap xs m (m - 1)"

definition pid_swap :: "process list \<Rightarrow> nat \<Rightarrow> nat \<Rightarrow> bool" where
  "pid_swap ps idx_a idx_b = (pid (ps ! idx_a) > pid (ps ! idx_b))"

text \<open>The scan for a higher-priority arrival after the indices below \<open>k\<close> have been visited:
  the value of \<^verbatim>\<open>higher_priority_arrived\<close> (the scan stops at the first hit).\<close>

fun higher_arrival :: "process list \<Rightarrow> int \<Rightarrow> int \<Rightarrow> nat \<Rightarrow> bool" where
  "higher_arrival ps t highest_priority 0 = False"
| "higher_arrival ps t highest_priority (Suc k) =
     (higher_arrival ps t highest_priority k \<or>
      (arrival_time (ps ! k) = t \<and> remaining_time (ps ! k) > 0 \<and>
       priority (ps ! k) < highest_priority))"

text \<open>The loop over \<^verbatim>\<open>t\<close> with \<open>k\<close> units of \<^verbatim>\<open>run_for\<close> left. One unit advances the clock,
  takes one unit off the process and records its completion, as \<open>run_unit\<close> does; the result
  carries \<^verbatim>\<open>higher_priority_arrived\<close>.\<close>

fun prio_slice :: "nat \<Rightarrow> int \<Rightarrow> nat \<Rightarrow> nat \<Rightarrow> sched_state \<Rightarrow> sched_state \<times> bool" where
  "prio_slice n highest_priority idx 0 s = (s, False)"
| "prio_slice n highest_priority idx (Suc k) s =
     (let s1 = run_unit s idx
      in if higher_arrival (procs s1) (current_time s1) highest_priority n then (s1, True)
         else if remaining_time (procs s1 ! idx) = 0 then (s1, False)
         else prio_slice n highest_priority idx k s1)"

text \<open>The loop over \<^verbatim>\<open>r\<close>, on the members of the group still to be visited.\<close>

fun prio_rotation :: "nat \<Rightarrow> int \<Rightarrow> int \<Rightarrow> nat list \<Rightarrow> sched_state \<Rightarrow> sched_state" where
  "prio_rotation n highest_priority tq [] s = s"
| "prio_rotation n highest_priority tq (idx # rest) s =
     (if \<not> completed s < n then s
      else if remaining_time (procs s ! idx) \<le> 0 then prio_rotation n highest_priority tq rest s
      else
        let run_for = (if remaining_time (procs s ! idx) < tq
                       then remaining_time (procs s ! idx) else tq)
        in case prio_slice n highest_priority idx (nat run_for) s of
             (s1, higher_priority_arrived) \<Rightarrow>
               if higher_priority_arrived then s1
               else prio_rotation n highest_priority tq rest s1)"

definition prio_iteration :: "nat \<Rightarrow> int \<Rightarrow> sched_state \<Rightarrow> sched_state flow" where
  "prio_iteration n tq s =
     (case prio_collect (procs s) (current_time s) n of
        (highest_priority, ready_processes) \<Rightarrow>
          if ready_processes = [] then
            (let next_arrival = next_arrival_scan (procs s) (current_time s) n
             in if next_arrival = INT_MAX then Break
                else Next (s\<lparr>current_time := next_arrival\<rparr>))
          else
            Next (prio_rotation n highest_priority tq
                    (bubble_sort (pid_swap (procs s)) ready_processes (length ready_processes)) s))"

partial_function (option) prio_loop :: "nat \<Rightarrow> int \<Rightarrow> sched_state \<Rightarrow> sched_state option" where
  [code]: "prio_loop n tq s =
     (if completed s < n then
        (case prio_iteration n tq s of
           Break \<Rightarrow> Some s
         | Next s' \<Rightarrow> prio_loop n tq s')
      else Some s)"

definition priority_preemptive_rr ::
    "SchedulerContext \<Rightarrow> (SchedulerContext \<times> string list) option" where
  "priority_preemptive_rr ctx0 =
     (let tq = (if time_quantum ctx0 \<le> 0 then 2 else time_quantum ctx0);
          ctx = reset_process_states ctx0;
          n = nat (num_processes ctx)
      in case prio_loop n tq (loop_start ctx) of
           None \<Rightarrow> None
         | Some s \<Rightarrow>
             Some (display_results (ctx\<lparr>processes := procs s\<rparr>) ''PRIORITY_PREEMPTIVE_WITH_RR''))"

section \<open>Round robin\<close>

subsection \<open>The circular queue\<close>

definition QUEUE_MAX :: int where
  "QUEUE_MAX = 1000"

record Queue =
  items :: "int list"
  front :: int
  rear :: int

text \<open>C's \<^verbatim>\<open>%\<close> truncates towards zero: it is \<open>smod\<close>.\<close>

definition init_queue :: "Queue \<Rightarrow> Queue" where
  "init_queue q = q\<lparr>front := - 1, rear := - 1\<rparr>"

definition is_empty :: "Queue \<Rightarrow> bool" where
  "is_empty q = (front q = - 1)"

definition queue_full :: "Queue \<Rightarrow> bool" where
  "queue_full q = ((rear q + 1) smod QUEUE_MAX = front q)"

definition enqueue :: "Queue \<Rightarrow> int \<Rightarrow> Queue" where
  "enqueue q x =
     (if queue_full q then q
      else if is_empty q then q\<lparr>items := (items q)[0 := x], front := 0, rear := 0\<rparr>
      else
        let r = (rear q + 1) smod QUEUE_MAX
        in q\<lparr>items := (items q)[nat r := x], rear := r\<rparr>)"

definition dequeue :: "Queue \<Rightarrow> int \<times> Queue" where
  "dequeue q =
     (if is_empty q then (- 1, q)
      else
        let item = items q ! nat (front q)
        in if front q = rear q then (item, q\<lparr>front := - 1, rear := - 1\<rparr>)
           else (item, q\<lparr>front := (front q + 1) smod QUEUE_MAX\<rparr>))"

subsection \<open>The scheduler\<close>

text \<open>The locals of \<^verbatim>\<open>round_robin\<close>. The field \<open>remaining\<close> is the local array
  \<^verbatim>\<open>remaining_time\<close>. The field \<open>dropped\<close> is not in the source: it counts the calls of
  \<^verbatim>\<open>enqueue\<close> that returned through the full-queue branch, and nothing reads it.\<close>

record rr_state = sched_state +
  remaining :: "int list"
  is_completed :: "bool list"
  in_ready_queue :: "bool list"
  q :: Queue
  dropped :: nat

text \<open>\<^verbatim>\<open>enqueue(&q, i); in_ready_queue[i] = true;\<close>\<close>

definition rr_enqueue :: "rr_state \<Rightarrow> nat \<Rightarrow> rr_state" where
  "rr_enqueue s i =
     s\<lparr>in_ready_queue := (in_ready_queue s)[i := True],
       q := enqueue (q s) (int i),
       dropped := dropped s + (if queue_full (q s) then 1 else 0)\<rparr>"

definition rr_swap :: "process \<Rightarrow> process \<Rightarrow> bool" where
  "rr_swap a b =
     (if arrival_time a > arrival_time b then True
      else if arrival_time a = arrival_time b \<and> pid a > pid b then True
      else False)"

fun rr_init_remaining :: "process list \<Rightarrow> int list \<Rightarrow> nat \<Rightarrow> int list" where
  "rr_init_remaining ps rem 0 = rem"
| "rr_init_remaining ps rem (Suc k) = (rr_init_remaining ps rem k)[k := burst_time (ps ! k)]"

text \<open>The loop that enqueues the arrivals at time 0, after \<open>k\<close> rounds.\<close>

fun rr_admit_zero :: "rr_state \<Rightarrow> nat \<Rightarrow> rr_state" where
  "rr_admit_zero s 0 = s"
| "rr_admit_zero s (Suc k) =
     (let s1 = rr_admit_zero s k
      in if arrival_time (procs s1 ! k) = 0 then rr_enqueue s1 k else s1)"

text \<open>The two loops of the idle branch.\<close>

fun rr_next_arrival_scan :: "rr_state \<Rightarrow> nat \<Rightarrow> int" where
  "rr_next_arrival_scan s 0 = INT_MAX"
| "rr_next_arrival_scan s (Suc k) =
     (let next_arrival_time = rr_next_arrival_scan s k
      in if \<not> is_completed s ! k \<and> arrival_time (procs s ! k) > current_time s \<and>
            arrival_time (procs s ! k) < next_arrival_time
         then arrival_time (procs s ! k) else next_arrival_time)"

fun rr_admit_at :: "rr_state \<Rightarrow> nat \<Rightarrow> rr_state" where
  "rr_admit_at s 0 = s"
| "rr_admit_at s (Suc k) =
     (let s1 = rr_admit_at s k
      in if \<not> is_completed s1 ! k \<and> arrival_time (procs s1 ! k) = current_time s1 \<and>
            \<not> in_ready_queue s1 ! k
         then rr_enqueue s1 k else s1)"

text \<open>The loop that enqueues the arrivals of the window \<open>(start_time, time]\<close>.\<close>

fun rr_admit_window :: "int \<Rightarrow> rr_state \<Rightarrow> nat \<Rightarrow> rr_state" where
  "rr_admit_window start_time s 0 = s"
| "rr_admit_window start_time s (Suc k) =
     (let s1 = rr_admit_window start_time s k
      in if \<not> is_completed s1 ! k \<and> \<not> in_ready_queue s1 ! k \<and>
            arrival_time (procs s1 ! k) > start_time \<and>
            arrival_time (procs s1 ! k) \<le> current_time s1
         then rr_enqueue s1 k else s1)"

text \<open>The second case of the loop body: a slice for the process at the front. The queue is
  not empty here, so \<^verbatim>\<open>dequeue\<close> gives an index that was enqueued. The statement
  \<^verbatim>\<open>time += exec_time\<close> is an addition of \<^verbatim>\<open>int\<close>; the window test that follows compares the
  arrival times with the clock values before and after it.\<close>

definition rr_slice :: "nat \<Rightarrow> int \<Rightarrow> rr_state \<Rightarrow> rr_state" where
  "rr_slice n tq s =
     (case dequeue (q s) of (item, q1) \<Rightarrow>
        let idx = nat item;
            s1 = s\<lparr>q := q1, in_ready_queue := (in_ready_queue s)[idx := False]\<rparr>;
            exec_time = (if remaining s1 ! idx < tq then remaining s1 ! idx else tq);
            start_time = current_time s1;
            s2 = s1\<lparr>current_time := wrap_int (start_time + exec_time),
                    remaining := (remaining s1)[idx := remaining s1 ! idx - exec_time]\<rparr>;
            s3 = rr_admit_window start_time s2 n
        in if remaining s3 ! idx = 0
           then s3\<lparr>is_completed := (is_completed s3)[idx := True],
                   completed := completed s3 + 1,
                   procs := (procs s3)[idx := (procs s3 ! idx)\<lparr>completion_time := current_time s3\<rparr>]\<rparr>
           else rr_enqueue s3 idx)"

definition rr_iteration :: "nat \<Rightarrow> int \<Rightarrow> rr_state \<Rightarrow> rr_state flow" where
  "rr_iteration n tq s =
     (if is_empty (q s) then
        (let next_arrival_time = rr_next_arrival_scan s n
         in if next_arrival_time \<noteq> INT_MAX
            then Next (rr_admit_at (s\<lparr>current_time := next_arrival_time\<rparr>) n)
            else Break)
      else Next (rr_slice n tq s))"

partial_function (option) rr_loop :: "nat \<Rightarrow> int \<Rightarrow> rr_state \<Rightarrow> rr_state option" where
  [code]: "rr_loop n tq s =
     (if completed s < n then
        (case rr_iteration n tq s of
           Break \<Rightarrow> Some s
         | Next s' \<Rightarrow> rr_loop n tq s')
      else Some s)"

text \<open>The state at the head of the main loop. The arrays of the locals are as long as the
  process array (\<^verbatim>\<open>MAX_PROCESSES\<close>); cells the source leaves uninitialised hold 0 and are
  written before they are read.\<close>

definition rr_start :: "SchedulerContext \<Rightarrow> rr_state" where
  "rr_start ctx =
     (let n = nat (num_processes ctx);
          ps = bubble_sort rr_swap (processes ctx) n;
          s0 = \<lparr>procs = ps, current_time = 0, completed = 0,
                remaining = rr_init_remaining ps (replicate (length ps) 0) n,
                is_completed = replicate (length ps) False,
                in_ready_queue = replicate (length ps) False,
                q = init_queue \<lparr>items = replicate (nat QUEUE_MAX) 0, front = 0, rear = 0\<rparr>,
                dropped = 0\<rparr>
      in rr_admit_zero s0 n)"

definition round_robin ::
    "SchedulerContext \<Rightarrow> int \<Rightarrow> (SchedulerContext \<times> string list) option" where
  "round_robin ctx0 tq =
     (if tq \<le> 0 \<or> num_processes ctx0 \<le> 0 then Some (ctx0, [])
      else
        let ctx = reset_process_states ctx0;
            n = nat (num_processes ctx)
        in case rr_loop n tq (rr_start ctx) of
             None \<Rightarrow> None
           | Some s \<Rightarrow> Some (display_results (ctx\<lparr>processes := procs s\<rparr>) ''RR''))"

section \<open>Inputs used to instantiate the theorems\<close>

definition mk_process :: "int \<Rightarrow> int \<Rightarrow> int \<Rightarrow> int \<Rightarrow> process" where
  "mk_process i a b pr =
     \<lparr>pid = i, arrival_time = a, burst_time = b, priority = pr,
      remaining_time = 0, completion_time = 0\<rparr>"

text \<open>The round robin scenario of the spec: P1 arrives at 0 with burst 5, P2 at 1 with burst 3.\<close>

definition rr_example :: SchedulerContext where
  "rr_example =
     \<lparr>processes = [mk_process 1 0 5 0, mk_process 2 1 3 0], num_processes = 2, time_quantum = 2\<rparr>"

section \<open>Notions used to state the properties\<close>

text \<open>A process is eligible at time \<open>t\<close> when it has arrived and still has work to do.\<close>

definition eligible :: "process list \<Rightarrow> int \<Rightarrow> nat \<Rightarrow> bool" where
  "eligible ps t i = (arrival_time (ps ! i) \<le> t \<and> remaining_time (ps ! i) > 0)"

text \<open>The order of the selection: remaining time, then arrival time, then pid.\<close>

definition srt_key_le :: "process \<Rightarrow> process \<Rightarrow> bool" where
  "srt_key_le a b =
     (remaining_time a < remaining_time b \<or>
      (remaining_time a = remaining_time b \<and>
       (arrival_time a < arrival_time b \<or>
        (arrival_time a = arrival_time b \<and> pid a \<le> pid b))))"

text \<open>The fields of a process that describe the workload.\<close>

definition static_fields :: "process \<Rightarrow> int \<times> int \<times> int \<times> int" where
  "static_fields p = (pid p, arrival_time p, burst_time p, priority p)"

text \<open>The state at the head of the main loop of \<^verbatim>\<open>shortest_remaining_time_first\<close> after
  \<open>k\<close> passes through its body, when the run gets that far.\<close>

fun srt_steps :: "nat \<Rightarrow> nat \<Rightarrow> sched_state \<Rightarrow> sched_state option" where
  "srt_steps n 0 s = Some s"
| "srt_steps n (Suc k) s =
     (case srt_steps n k s of
        None \<Rightarrow> None
      | Some s1 \<Rightarrow>
          if completed s1 < n then
            (case srt_iteration n s1 of Inr (Next s2) \<Rightarrow> Some s2 | _ \<Rightarrow> None)
          else None)"

text \<open>The valid inputs of the data model: at least one process, arrival times from 0, bursts
  from 1.\<close>

definition valid_process :: "process \<Rightarrow> bool" where
  "valid_process p = (0 \<le> arrival_time p \<and> 0 < burst_time p)"

definition valid_input :: "SchedulerContext \<Rightarrow> bool" where
  "valid_input ctx =
     (0 < num_processes ctx \<and> nat (num_processes ctx) \<le> length (processes ctx) \<and>
      list_all valid_process (take (nat (num_processes ctx)) (processes ctx)))"

text \<open>Inputs in which no process arrives at \<open>INT_MAX\<close>, the value the idle scans keep for
  "no future arrival".\<close>

definition arrival_bounded :: "SchedulerContext \<Rightarrow> bool" where
  "arrival_bounded ctx =
     list_all (\<lambda>p. arrival_time p < INT_MAX) (take (nat (num_processes ctx)) (processes ctx))"

text \<open>Inputs on which the clock stays within the range of \<^verbatim>\<open>int\<close>: the sum of the bursts,
  added to 0 or to any arrival time, is at most \<open>INT_MAX\<close>.\<close>

definition total_burst :: "SchedulerContext \<Rightarrow> int" where
  "total_burst ctx = sum_list (map burst_time (take (nat (num_processes ctx)) (processes ctx)))"

definition clock_fits :: "SchedulerContext \<Rightarrow> bool" where
  "clock_fits ctx =
     (total_burst ctx \<le> INT_MAX \<and>
      list_all (\<lambda>p. arrival_time p + total_burst ctx \<le> INT_MAX)
        (take (nat (num_processes ctx)) (processes ctx)))"

text \<open>What is left to do in a state: the units still to run, and the processes with work left
  that are not eligible at the clock value of the state. A unit takes one from the first and
  may change the second by no more than \<open>n\<close>, wherever the clock goes; an idle jump leaves the
  first and takes from the second. Every pass through a loop body makes the measure smaller.\<close>

definition work_left :: "nat \<Rightarrow> sched_state \<Rightarrow> nat" where
  "work_left n s =
     (\<Sum>i<n. nat (remaining_time (procs s ! i))) * (n + 1) +
     card {i. i < n \<and> remaining_time (procs s ! i) > 0 \<and> arrival_time (procs s ! i) > current_time s}"

text \<open>The invariant of the unit-stepping engines that does not depend on the clock: no arrival
  at \<open>INT_MAX\<close>, no negative remaining time, and \<^verbatim>\<open>completed\<close> counts the processes at
  remaining time 0.\<close>

definition live :: "nat \<Rightarrow> sched_state \<Rightarrow> bool" where
  "live n s =
     (n \<le> length (procs s) \<and>
      (\<forall>i<n. arrival_time (procs s ! i) < INT_MAX \<and> 0 \<le> remaining_time (procs s ! i)) \<and>
      completed s = card {i. i < n \<and> remaining_time (procs s ! i) = 0})"

text \<open>The units still to run in a state.\<close>

definition rest_work :: "nat \<Rightarrow> sched_state \<Rightarrow> int" where
  "rest_work n s = (\<Sum>i<n. remaining_time (procs s ! i))"

text \<open>The invariant of the unit-stepping engines on valid inputs on which the clock stays in
  range: the clock, and every arrival time, leaves room for the units still to run.\<close>

definition good :: "nat \<Rightarrow> sched_state \<Rightarrow> bool" where
  "good n s =
     (live n s \<and> 0 \<le> current_time s \<and> current_time s + rest_work n s \<le> INT_MAX \<and>
      (\<forall>i<n. valid_process (procs s ! i) \<and>
             arrival_time (procs s ! i) + rest_work n s \<le> INT_MAX \<and>
             remaining_time (procs s ! i) \<le> burst_time (procs s ! i) \<and>
             (remaining_time (procs s ! i) < burst_time (procs s ! i) \<longrightarrow>
                arrival_time (procs s ! i) + burst_time (procs s ! i) - remaining_time (procs s ! i)
                  \<le> current_time s) \<and>
             (remaining_time (procs s ! i) = 0 \<longrightarrow>
                arrival_time (procs s ! i) + burst_time (procs s ! i) \<le> completion_time (procs s ! i))))"

text \<open>The invariant that holds on every input whose bursts are below \<open>INT_MAX\<close>, wherever
  the clock goes.\<close>

definition bounded :: "nat \<Rightarrow> sched_state \<Rightarrow> bool" where
  "bounded n s = (n \<le> length (procs s) \<and> (\<forall>i<n. remaining_time (procs s ! i) < INT_MAX))"

text \<open>A process with a burst of \<open>INT_MAX\<close> units, a process that arrives at \<open>INT_MAX\<close>, and
  a process that is still running when the clock reaches \<open>INT_MAX\<close>: valid processes of the data
  model.\<close>

definition clock_overflow :: SchedulerContext where
  "clock_overflow =
     \<lparr>processes = [mk_process 1 (INT_MAX - 1) 2 0], num_processes = 1, time_quantum = 2\<rparr>"

definition huge_burst :: SchedulerContext where
  "huge_burst =
     \<lparr>processes = [mk_process 1 0 INT_MAX 0], num_processes = 1, time_quantum = 2\<rparr>"

definition late_arrival :: SchedulerContext where
  "late_arrival =
     \<lparr>processes = [mk_process 1 INT_MAX 1 0], num_processes = 1, time_quantum = 2\<rparr>"

text \<open>The scenario of the spec for SRT: P1 arrives at 0 with burst 8, P2 at 1 with burst 4.\<close>

definition srt_example :: SchedulerContext where
  "srt_example =
     \<lparr>processes = [mk_process 1 0 8 0, mk_process 2 1 4 0], num_processes = 2, time_quantum = 2\<rparr>"

text \<open>Inputs whose bursts are below \<open>INT_MAX\<close>, with the process count within the array.\<close>

definition burst_bounded :: "SchedulerContext \<Rightarrow> bool" where
  "burst_bounded ctx =
     (nat (num_processes ctx) \<le> length (processes ctx) \<and>
      list_all (\<lambda>p. burst_time p < INT_MAX) (take (nat (num_processes ctx)) (processes ctx)))"

text \<open>Two processes that tie on remaining time and arrival time, the one with the smaller pid
  in the second cell.\<close>

definition srt_tie :: SchedulerContext where
  "srt_tie =
     \<lparr>processes = [mk_process 2 0 3 0, mk_process 1 0 3 0], num_processes = 2, time_quantum = 2\<rparr>"

text \<open>A state reached from another by running eligible processes, one unit at a time.\<close>

inductive units :: "nat \<Rightarrow> sched_state \<Rightarrow> sched_state \<Rightarrow> bool" for n :: nat where
  units_refl: "units n s s"
| units_step: "i < n \<Longrightarrow> eligible (procs s) (current_time s) i \<Longrightarrow> units n (run_unit s i) s'
     \<Longrightarrow> units n s s'"

text \<open>The state after \<open>u\<close> consecutive units of process \<open>idx\<close>.\<close>

fun run_units :: "sched_state \<Rightarrow> nat \<Rightarrow> nat \<Rightarrow> sched_state" where
  "run_units s idx 0 = s"
| "run_units s idx (Suc u) = run_unit (run_units s idx u) idx"

text \<open>The value of \<^verbatim>\<open>higher_priority_arrived\<close> that the priority engine computes after the
  \<open>u\<close>-th unit of a slice of \<open>idx\<close> that started in state \<open>s\<close>.\<close>

definition higher_seen :: "nat \<Rightarrow> int \<Rightarrow> sched_state \<Rightarrow> nat \<Rightarrow> nat \<Rightarrow> bool" where
  "higher_seen n highest_priority s idx u =
     higher_arrival (procs (run_units s idx u)) (current_time (run_units s idx u))
       highest_priority n"

text \<open>Valid inputs of the priority engine: priorities are C integers too.\<close>

definition valid_priorities :: "SchedulerContext \<Rightarrow> bool" where
  "valid_priorities ctx =
     list_all (\<lambda>p. priority p \<le> INT_MAX) (take (nat (num_processes ctx)) (processes ctx))"

text \<open>An input for the priority engine in which a completion and a higher-priority arrival
  fall on the same instant: P1 and P2 (priority 3, burst 2) arrive at 0, P3 (priority 1) at 2.\<close>

definition prio_coincide :: SchedulerContext where
  "prio_coincide =
     \<lparr>processes = [mk_process 1 0 2 3, mk_process 2 0 2 3, mk_process 3 2 1 1],
      num_processes = 3, time_quantum = 2\<rparr>"

text \<open>The priority scenario of the spec: P1 (priority 3, burst 6) arrives at 0, P2 (priority 1,
  burst 3) at 2.\<close>

definition prio_example :: SchedulerContext where
  "prio_example =
     \<lparr>processes = [mk_process 1 0 6 3, mk_process 2 2 3 1], num_processes = 2, time_quantum = 2\<rparr>"

section \<open>Notions for the round robin engine\<close>

text \<open>The content of the circular queue, front first: \<open>queue_len\<close> cells from \<open>front\<close> on,
  wrapping round at \<open>QUEUE_MAX\<close>.\<close>

definition queue_len :: "Queue \<Rightarrow> nat" where
  "queue_len qu = (if front qu = - 1 then 0 else nat ((rear qu - front qu) mod QUEUE_MAX) + 1)"

definition queue_list :: "Queue \<Rightarrow> int list" where
  "queue_list qu = map (\<lambda>k. items qu ! nat ((front qu + int k) mod QUEUE_MAX)) [0..<queue_len qu]"

definition wfq :: "Queue \<Rightarrow> bool" where
  "wfq qu =
     (length (items qu) = nat QUEUE_MAX \<and>
      ((front qu = - 1 \<and> rear qu = - 1) \<or>
       (0 \<le> front qu \<and> front qu < QUEUE_MAX \<and> 0 \<le> rear qu \<and> rear qu < QUEUE_MAX)))"

text \<open>The three loops of \<^verbatim>\<open>round_robin\<close> that enqueue arrivals have one shape: index \<open>k\<close>
  is enqueued when a test \<open>C\<close> on the current state holds.\<close>

fun admit :: "(rr_state \<Rightarrow> nat \<Rightarrow> bool) \<Rightarrow> rr_state \<Rightarrow> nat \<Rightarrow> rr_state" where
  "admit C s 0 = s"
| "admit C s (Suc k) = (let s1 = admit C s k in if C s1 k then rr_enqueue s1 k else s1)"

text \<open>The state at the head of the main loop of \<^verbatim>\<open>round_robin\<close> after \<open>k\<close> passes through
  its body, when the run gets that far.\<close>

fun rr_steps :: "nat \<Rightarrow> int \<Rightarrow> nat \<Rightarrow> rr_state \<Rightarrow> rr_state option" where
  "rr_steps n tq 0 s = Some s"
| "rr_steps n tq (Suc k) s =
     (case rr_steps n tq k s of
        None \<Rightarrow> None
      | Some s1 \<Rightarrow>
          if completed s1 < n then
            (case rr_iteration n tq s1 of Next s2 \<Rightarrow> Some s2 | Break \<Rightarrow> None)
          else None)"

text \<open>The units still to run in a state of \<^verbatim>\<open>round_robin\<close>.\<close>

definition rr_rest :: "nat \<Rightarrow> rr_state \<Rightarrow> int" where
  "rr_rest n s = (\<Sum>i<n. remaining s ! i)"

text \<open>The invariant of the queue and its flags, on inputs on which the clock stays in range:
  the clock, and every arrival time, leaves room for the units still to run.\<close>

definition rr_inv :: "nat \<Rightarrow> rr_state \<Rightarrow> bool" where
  "rr_inv n s =
     (n \<le> length (procs s) \<and> length (remaining s) = length (procs s) \<and>
      0 \<le> current_time s \<and> current_time s + rr_rest n s \<le> INT_MAX \<and>
      (\<forall>i<n. arrival_time (procs s ! i) + rr_rest n s \<le> INT_MAX) \<and>
      length (is_completed s) = length (procs s) \<and>
      length (in_ready_queue s) = length (procs s) \<and>
      int n \<le> QUEUE_MAX \<and> wfq (q s) \<and>
      (\<forall>x\<in>set (queue_list (q s)). 0 \<le> x \<and> nat x < n) \<and>
      distinct (queue_list (q s)) \<and>
      (\<forall>i<n. in_ready_queue s ! i \<longleftrightarrow> int i \<in> set (queue_list (q s))) \<and>
      dropped s = 0 \<and>
      (\<forall>i<n. in_ready_queue s ! i \<longrightarrow>
             arrival_time (procs s ! i) \<le> current_time s \<and> \<not> is_completed s ! i) \<and>
      (\<forall>i<n. 0 \<le> remaining s ! i))"

text \<open>The invariant of the round robin engine on valid inputs.\<close>

definition rr_good :: "nat \<Rightarrow> rr_state \<Rightarrow> bool" where
  "rr_good n s =
     (0 \<le> current_time s \<and>
      (\<forall>i<n. valid_process (procs s ! i) \<and>
             remaining s ! i \<le> burst_time (procs s ! i) \<and>
             (remaining s ! i < burst_time (procs s ! i) \<longrightarrow>
                arrival_time (procs s ! i) + burst_time (procs s ! i) - remaining s ! i
                  \<le> current_time s) \<and>
             (is_completed s ! i \<longleftrightarrow> remaining s ! i = 0) \<and>
             (is_completed s ! i \<longrightarrow>
                arrival_time (procs s ! i) + burst_time (procs s ! i) \<le> completion_time (procs s ! i)) \<and>
             (\<not> is_completed s ! i \<and> arrival_time (procs s ! i) \<le> current_time s \<longrightarrow>
                in_ready_queue s ! i)) \<and>
      completed s = card {i. i < n \<and> is_completed s ! i})"

definition rr_work_left :: "nat \<Rightarrow> rr_state \<Rightarrow> nat" where
  "rr_work_left n s =
     (\<Sum>i<n. nat (remaining s ! i)) +
     card {i. i < n \<and> \<not> is_completed s ! i \<and> arrival_time (procs s ! i) > current_time s}"

text \<open>What the trace of a round robin run shows of a state: the clock, the queue (front
  first), the remaining times and the counter of completed processes.\<close>

definition rr_view :: "rr_state \<Rightarrow> int \<times> int list \<times> int list \<times> nat" where
  "rr_view s = (current_time s, queue_list (q s), remaining s, completed s)"

text \<open>Inputs of the round robin engine that fit its arrays: the count is within the process
  array and within the capacity of the queue, and no burst is negative.\<close>

definition rr_fits :: "SchedulerContext \<Rightarrow> bool" where
  "rr_fits ctx =
     (nat (num_processes ctx) \<le> length (processes ctx) \<and> num_processes ctx \<le> QUEUE_MAX \<and>
      list_all (\<lambda>p. 0 \<le> burst_time p) (take (nat (num_processes ctx)) (processes ctx)))"


text \<open>Inputs of the round robin engine on which the clock passes \<open>INT_MAX\<close>: three processes
  arrive at 0, and the quantum is 2000000000.\<close>

definition rr_wrap_done :: SchedulerContext where
  "rr_wrap_done =
     \<lparr>processes = [mk_process 1 0 2000000000 0, mk_process 2 0 2000000000 0,
                   mk_process 3 0 1000000000 0],
      num_processes = 3, time_quantum = 2000000000\<rparr>"

definition rr_wrap_twice :: SchedulerContext where
  "rr_wrap_twice =
     \<lparr>processes = [mk_process 1 0 2000000000 0, mk_process 2 0 2000000000 0,
                   mk_process 3 0 2100000000 0],
      num_processes = 3, time_quantum = 2000000000\<rparr>"

text \<open>An input with one process more than the queue of \<^verbatim>\<open>round_robin\<close> holds: the
  processes have pids from 1 on, arrive at 0 and have burst 1, and the quantum is 1. (The process
  array is sized by \<^verbatim>\<open>MAX_PROCESSES\<close>, a constant of the header that is not part of the
  sources.)\<close>

definition rr_overfull :: SchedulerContext where
  "rr_overfull =
     \<lparr>processes = map (\<lambda>i. mk_process (int i + 1) 0 1 0) [0..<Suc (nat QUEUE_MAX)],
      num_processes = QUEUE_MAX + 1, time_quantum = 1\<rparr>"

text \<open>The arrival time, the burst and the completion time that a call of \<^verbatim>\<open>round_robin\<close>
  leaves in cell \<open>i\<close> of the process array, when it returns.\<close>

definition rr_cell :: "SchedulerContext \<Rightarrow> int \<Rightarrow> nat \<Rightarrow> (int \<times> int \<times> int) option" where
  "rr_cell ctx tq i =
     (case round_robin ctx tq of
        None \<Rightarrow> None
      | Some r \<Rightarrow>
          Some (arrival_time (processes (fst r) ! i), burst_time (processes (fst r) ! i),
                completion_time (processes (fst r) ! i)))"

text \<open>The states at the head of the main loop in the run on \<open>rr_overfull\<close>, after \<open>c\<close>
  slices: the processes below \<open>c\<close> are completed, the queue holds the indices from \<open>c\<close> to
  \<open>QUEUE_MAX - 1\<close>, and the flag of the last index is on although the index is not in the
  queue.\<close>

definition overfull_at :: "nat \<Rightarrow> rr_state \<Rightarrow> bool" where
  "overfull_at c s =
     (wfq (q s) \<and> queue_list (q s) = map int [c..<nat QUEUE_MAX] \<and>
      current_time s = int c \<and> completed s = c \<and>
      length (procs s) = Suc (nat QUEUE_MAX) \<and> length (remaining s) = Suc (nat QUEUE_MAX) \<and>
      length (is_completed s) = Suc (nat QUEUE_MAX) \<and>
      length (in_ready_queue s) = Suc (nat QUEUE_MAX) \<and>
      (\<forall>i<Suc (nat QUEUE_MAX).
         remaining s ! i = (if i < c then 0 else 1) \<and>
         (is_completed s ! i \<longleftrightarrow> i < c) \<and>
         (in_ready_queue s ! i \<longleftrightarrow> c \<le> i) \<and>
         arrival_time (procs s ! i) = 0) \<and>
      burst_time (procs s ! nat QUEUE_MAX) = 1 \<and>
      completion_time (procs s ! nat QUEUE_MAX) = 0)"

section \<open>Shortest remaining time first: proofs\<close>

subsection \<open>The scans\<close>

lemma init_remaining_length [simp]: "length (init_remaining ps k) = length ps"
  by (induction k) (auto simp: Let_def)

lemma init_remaining_nth:
  "k \<le> length ps \<Longrightarrow> i < length ps \<Longrightarrow>
   init_remaining ps k ! i = (if i < k then (ps ! i)\<lparr>remaining_time := burst_time (ps ! i)\<rparr> else ps ! i)"
  by (induction k) (auto simp: Let_def nth_list_update less_Suc_eq)

lemma next_arrival_scan_le_max: "next_arrival_scan ps t k \<le> INT_MAX"
  by (induction k) (auto simp: Let_def)

lemma next_arrival_scan_cases:
  "next_arrival_scan ps t k = INT_MAX \<or>
   (\<exists>i<k. remaining_time (ps ! i) > 0 \<and> arrival_time (ps ! i) > t \<and>
          next_arrival_scan ps t k = arrival_time (ps ! i))"
  by (induction k) (auto simp: Let_def less_Suc_eq)

lemma next_arrival_scan_le:
  "i < k \<Longrightarrow> remaining_time (ps ! i) > 0 \<Longrightarrow> arrival_time (ps ! i) > t \<Longrightarrow>
   next_arrival_scan ps t k \<le> arrival_time (ps ! i)"
  by (induction k) (auto simp: Let_def less_Suc_eq)

lemma srt_key_le_trans: "srt_key_le a b \<Longrightarrow> srt_key_le b c \<Longrightarrow> srt_key_le a c"
  by (auto simp: srt_key_le_def)

lemma srt_key_le_refl: "srt_key_le a a"
  by (auto simp: srt_key_le_def)

lemma srt_consider_cases:
  assumes "eligible ps t k" "0 \<le> sh0" "sh0 < int n" "m0 = remaining_time (ps ! nat sh0)"
    and "srt_consider ps t n (sh0, m0) k = Inr (sh, m)"
  shows "(sh = int k \<and> srt_key_le (ps ! k) (ps ! nat sh0) \<and> m = remaining_time (ps ! k)) \<or>
         (sh = sh0 \<and> m = m0 \<and> srt_key_le (ps ! nat sh0) (ps ! k))"
proof -
  let ?p = "ps ! k" and ?b = "ps ! nat sh0"
  have nf: "\<not> (sh0 < 0 \<or> int n \<le> sh0)" using assms(2,3) by simp
  have el: "arrival_time ?p \<le> t \<and> remaining_time ?p > 0"
    using assms(1) by (simp add: eligible_def)
  note c = assms(5) [unfolded srt_consider_def Let_def prod.case if_P [OF el] if_not_P [OF nf]]
  consider (a) "remaining_time ?p < m0"
    | (b) "remaining_time ?p = m0" "arrival_time ?p < arrival_time ?b"
    | (c) "remaining_time ?p = m0" "arrival_time ?p = arrival_time ?b" "pid ?p < pid ?b"
    | (d) "remaining_time ?p = m0" "arrival_time ?p = arrival_time ?b" "\<not> pid ?p < pid ?b"
    | (e) "remaining_time ?p = m0" "arrival_time ?b < arrival_time ?p"
    | (f) "m0 < remaining_time ?p"
    by linarith
  then show ?thesis
  proof cases
    case a
    with c have "sh = int k" "m = remaining_time ?p" by simp_all
    with a assms(4) show ?thesis by (simp add: srt_key_le_def)
  next
    case b
    with c have "sh = int k" "m = m0" by simp_all
    with b assms(4) show ?thesis by (simp add: srt_key_le_def)
  next
    case c1: c
    with c have "sh = int k" "m = m0" by simp_all
    with c1 assms(4) show ?thesis by (simp add: srt_key_le_def)
  next
    case d
    with c have "sh = sh0" "m = m0" by simp_all
    with d assms(4) show ?thesis by (simp add: srt_key_le_def)
  next
    case e
    with c have "sh = sh0" "m = m0" by simp_all
    with e assms(4) show ?thesis by (simp add: srt_key_le_def)
  next
    case f
    with c have "sh = sh0" "m = m0" by simp_all
    with f assms(4) show ?thesis by (simp add: srt_key_le_def)
  qed
qed

lemma srt_scan_spec:
  assumes "\<forall>i<k. remaining_time (ps ! i) \<le> INT_MAX" "k \<le> n" "srt_scan ps t n k = Inr (sh, m)"
  shows "(sh = - 1 \<and> m = INT_MAX \<and> (\<forall>i<k. \<not> eligible ps t i)) \<or>
         (0 \<le> sh \<and> nat sh < k \<and> eligible ps t (nat sh) \<and> m = remaining_time (ps ! nat sh) \<and>
          (\<forall>i<k. eligible ps t i \<longrightarrow> srt_key_le (ps ! nat sh) (ps ! i)))"
  using assms
proof (induction k arbitrary: sh m)
  case 0
  then show ?case by simp
next
  case (Suc k)
  from Suc.prems(3) obtain sh0 m0 where
    scan0: "srt_scan ps t n k = Inr (sh0, m0)" and
    cons: "srt_consider ps t n (sh0, m0) k = Inr (sh, m)"
    by (auto split: sum.splits)
  have range: "\<forall>i<k. remaining_time (ps ! i) \<le> INT_MAX" and rk: "remaining_time (ps ! k) \<le> INT_MAX"
    using Suc.prems(1) by auto
  have kn: "k \<le> n" using Suc.prems(2) by simp
  note IH = Suc.IH [OF range kn scan0]
  show ?case
  proof (cases "eligible ps t k")
    case False
    then have "sh = sh0" "m = m0"
      using cons by (auto simp: srt_consider_def eligible_def Let_def)
    with IH False show ?thesis
      by (auto simp: less_Suc_eq)
  next
    case True
    from IH show ?thesis
    proof
      assume none: "sh0 = - 1 \<and> m0 = INT_MAX \<and> (\<forall>i<k. \<not> eligible ps t i)"
      with cons True rk have "sh = int k" "m = remaining_time (ps ! k)"
        by (auto simp: srt_consider_def eligible_def Let_def split: if_splits)
      with none True show ?thesis
        by (auto simp: less_Suc_eq srt_key_le_refl)
    next
      assume some: "0 \<le> sh0 \<and> nat sh0 < k \<and> eligible ps t (nat sh0) \<and>
          m0 = remaining_time (ps ! nat sh0) \<and>
          (\<forall>i<k. eligible ps t i \<longrightarrow> srt_key_le (ps ! nat sh0) (ps ! i))"
      then have nofault: "\<not> (sh0 < 0 \<or> int n \<le> sh0)" using kn by auto
      have m0: "m0 = remaining_time (ps ! nat sh0)" using some by simp
      have lt: "sh0 < int n" and ge: "0 \<le> sh0" using nofault by auto
      consider (new) "sh = int k" "srt_key_le (ps ! k) (ps ! nat sh0)"
           "m = remaining_time (ps ! k)"
        | (old) "sh = sh0" "m = m0" "srt_key_le (ps ! nat sh0) (ps ! k)"
        using srt_consider_cases [OF True ge lt m0 cons] by blast
      then show ?thesis
      proof cases
        case new
        have "\<forall>i<k. eligible ps t i \<longrightarrow> srt_key_le (ps ! k) (ps ! i)"
          using some new(2) srt_key_le_trans by blast
        with new True show ?thesis
          by (auto simp: less_Suc_eq srt_key_le_refl)
      next
        case old
        with some show ?thesis
          by (auto simp: less_Suc_eq)
      qed
    qed
  qed
qed

lemma srt_scan_no_fault:
  assumes "\<forall>i<k. remaining_time (ps ! i) < INT_MAX" "k \<le> n"
  shows "\<exists>sh m. srt_scan ps t n k = Inr (sh, m)"
  using assms
proof (induction k)
  case 0
  then show ?case by simp
next
  case (Suc k)
  then obtain sh0 m0 where scan0: "srt_scan ps t n k = Inr (sh0, m0)"
    by auto
  have "\<forall>i<k. remaining_time (ps ! i) \<le> INT_MAX"
    using Suc.prems(1) by (auto intro!: less_imp_le)
  from srt_scan_spec [OF this _ scan0] Suc.prems(2)
  have spec: "(sh0 = - 1 \<and> m0 = INT_MAX) \<or> (0 \<le> sh0 \<and> nat sh0 < k)" by auto
  have "remaining_time (ps ! k) < INT_MAX" using Suc.prems(1) by simp
  with spec Suc.prems(2) have "\<exists>r. srt_consider ps t n (sh0, m0) k = Inr r"
    by (auto simp: srt_consider_def Let_def)
  with scan0 show ?case by auto
qed

subsection \<open>The clock\<close>

lemma wrap_int_id: "- INT_MAX - 1 \<le> x \<Longrightarrow> x \<le> INT_MAX \<Longrightarrow> wrap_int x = x"
  by (simp add: wrap_int_def INT_MAX_def)

lemma wrap_int_add: "wrap_int (wrap_int x + y) = wrap_int (x + y)"
proof -
  have "(wrap_int x + y + 2147483648) mod 4294967296
      = ((x + 2147483648) mod 4294967296 + y) mod 4294967296"
    by (simp add: wrap_int_def)
  also have "\<dots> = (x + 2147483648 + y) mod 4294967296"
    by (rule mod_add_left_eq)
  also have "x + 2147483648 + y = x + y + 2147483648"
    by simp
  finally have "(wrap_int x + y + 2147483648) mod 4294967296 = (x + y + 2147483648) mod 4294967296" .
  then show ?thesis
    unfolding wrap_int_def [of "wrap_int x + y"] wrap_int_def [of "x + y"] by simp
qed

lemma member_le_sum:
  fixes f :: "nat \<Rightarrow> int"
  assumes "\<forall>i<n. 0 \<le> f i" "j < n"
  shows "f j \<le> (\<Sum>i<n. f i)"
proof -
  have "(\<Sum>i<n. f i) = f j + sum f ({..<n} - {j})"
    by (rule sum.remove) (use assms(2) in auto)
  moreover have "0 \<le> sum f ({..<n} - {j})"
    by (rule sum_nonneg) (use assms(1) in auto)
  ultimately show ?thesis by simp
qed

subsection \<open>One unit of execution\<close>

lemma run_unit_length [simp]: "length (procs (run_unit s i)) = length (procs s)"
  by (simp add: run_unit_def Let_def)

lemma run_unit_time [simp]: "current_time (run_unit s i) = wrap_int (current_time s + 1)"
  by (simp add: run_unit_def Let_def)

lemma run_unit_other:
  "j \<noteq> i \<Longrightarrow> procs (run_unit s i) ! j = procs s ! j"
  by (simp add: run_unit_def Let_def)

lemma run_unit_self:
  assumes "i < length (procs s)"
  shows "procs (run_unit s i) ! i =
     (procs s ! i)\<lparr>remaining_time := remaining_time (procs s ! i) - 1,
                   completion_time := (if remaining_time (procs s ! i) = 1
                                       then wrap_int (current_time s + 1)
                                       else completion_time (procs s ! i))\<rparr>"
  using assms by (simp add: run_unit_def Let_def)

lemma run_unit_completed:
  assumes "i < length (procs s)"
  shows "completed (run_unit s i) =
     (if remaining_time (procs s ! i) = 1 then completed s + 1 else completed s)"
  using assms by (simp add: run_unit_def Let_def)

lemma run_unit_static:
  "map static_fields (procs (run_unit s i)) = map static_fields (procs s)"
proof (rule nth_equalityI)
  show "length (map static_fields (procs (run_unit s i))) = length (map static_fields (procs s))"
    by simp
next
  fix j assume "j < length (map static_fields (procs (run_unit s i)))"
  then have j: "j < length (procs s)" by simp
  show "map static_fields (procs (run_unit s i)) ! j = map static_fields (procs s) ! j"
  proof (cases "j = i")
    case True
    with j show ?thesis by (simp add: run_unit_self static_fields_def)
  next
    case False
    with j show ?thesis by (simp add: run_unit_other)
  qed
qed

lemma run_unit_remaining:
  assumes "i < length (procs s)"
  shows "remaining_time (procs (run_unit s i) ! j) =
     (if j = i then remaining_time (procs s ! i) - 1 else remaining_time (procs s ! j))"
  using assms by (simp add: run_unit_self run_unit_other)

lemma run_unit_arrival:
  assumes "i < length (procs s)"
  shows "arrival_time (procs (run_unit s i) ! j) = arrival_time (procs s ! j)"
  using assms by (cases "j = i") (simp_all add: run_unit_self run_unit_other)

lemma rest_work_run_unit:
  assumes "i < n" "n \<le> length (procs s)"
  shows "rest_work n (run_unit s i) = rest_work n s - 1"
proof -
  let ?f = "\<lambda>j. remaining_time (procs s ! j)"
  let ?f' = "\<lambda>j. remaining_time (procs (run_unit s i) ! j)"
  have il: "i < length (procs s)" using assms by simp
  have fin: "finite {..<n}" and mem: "i \<in> {..<n}" using assms by auto
  have rest: "sum ?f' ({..<n} - {i}) = sum ?f ({..<n} - {i})"
    by (rule sum.cong) (auto simp: run_unit_remaining [OF il])
  have "sum ?f' {..<n} = ?f' i + sum ?f' ({..<n} - {i})"
    by (rule sum.remove [OF fin mem])
  moreover have "sum ?f {..<n} = ?f i + sum ?f ({..<n} - {i})"
    by (rule sum.remove [OF fin mem])
  moreover have "?f' i = ?f i - 1"
    by (simp add: run_unit_remaining [OF il])
  ultimately show ?thesis
    using rest by (simp add: rest_work_def)
qed

lemma work_left_run_unit:
  assumes "i < n" "n \<le> length (procs s)" "0 < remaining_time (procs s ! i)"
  shows "work_left n (run_unit s i) < work_left n s"
proof -
  let ?s' = "run_unit s i"
  let ?f = "\<lambda>j. nat (remaining_time (procs s ! j))"
  let ?f' = "\<lambda>j. nat (remaining_time (procs ?s' ! j))"
  let ?A' = "{j. j < n \<and> remaining_time (procs ?s' ! j) > 0 \<and>
                 arrival_time (procs ?s' ! j) > current_time ?s'}"
  have il: "i < length (procs s)" using assms by simp
  have fin: "finite {..<n}" and mem: "i \<in> {..<n}" using assms by auto
  have rest: "sum ?f' ({..<n} - {i}) = sum ?f ({..<n} - {i})"
    by (rule sum.cong) (auto simp: run_unit_remaining [OF il])
  have "sum ?f' {..<n} = ?f' i + sum ?f' ({..<n} - {i})"
    by (rule sum.remove [OF fin mem])
  moreover have "sum ?f {..<n} = ?f i + sum ?f ({..<n} - {i})"
    by (rule sum.remove [OF fin mem])
  moreover have "?f' i + 1 = ?f i"
    using assms(3) by (simp add: run_unit_remaining [OF il])
  ultimately have sum: "sum ?f' {..<n} + 1 = sum ?f {..<n}"
    using rest by simp
  have "card ?A' \<le> card {..<n}"
    by (rule card_mono) auto
  then have c: "card ?A' \<le> n" by simp
  have "sum ?f' {..<n} * (n + 1) + card ?A' < (sum ?f' {..<n} + 1) * (n + 1)"
    using c by simp
  also have "\<dots> = sum ?f {..<n} * (n + 1)"
    by (simp only: sum)
  finally show ?thesis
    by (simp add: work_left_def)
qed

lemma work_left_jump:
  assumes "j < n" "0 < remaining_time (procs s ! j)" "current_time s < arrival_time (procs s ! j)"
    and "a = arrival_time (procs s ! j)"
  shows "work_left n (s\<lparr>current_time := a\<rparr>) < work_left n s"
proof -
  have "{i. i < n \<and> remaining_time (procs s ! i) > 0 \<and> arrival_time (procs s ! i) > a}
      \<subset> {i. i < n \<and> remaining_time (procs s ! i) > 0 \<and> arrival_time (procs s ! i) > current_time s}"
    using assms by auto
  then have "card {i. i < n \<and> remaining_time (procs s ! i) > 0 \<and> arrival_time (procs s ! i) > a}
      < card {i. i < n \<and> remaining_time (procs s ! i) > 0 \<and> arrival_time (procs s ! i) > current_time s}"
    by (intro psubset_card_mono) auto
  then show ?thesis
    by (simp add: work_left_def)
qed

lemma live_run_unit:
  assumes g: "live n s" and i: "i < n" and ri: "0 < remaining_time (procs s ! i)"
  shows "live n (run_unit s i)"
proof -
  let ?s' = "run_unit s i"
  have len: "n \<le> length (procs s)" and il: "i < length (procs s)"
    using g i by (auto simp: live_def)
  have per: "\<And>j. j < n \<Longrightarrow> arrival_time (procs s ! j) < INT_MAX \<and> 0 \<le> remaining_time (procs s ! j)"
    using g by (simp add: live_def)
  have cnt: "completed s = card {j. j < n \<and> remaining_time (procs s ! j) = 0}"
    using g by (simp add: live_def)
  have per': "arrival_time (procs ?s' ! j) < INT_MAX \<and> 0 \<le> remaining_time (procs ?s' ! j)"
    if j: "j < n" for j
    using per [OF j] ri by (auto simp: run_unit_remaining [OF il] run_unit_arrival [OF il])
  have cnt': "completed ?s' = card {j. j < n \<and> remaining_time (procs ?s' ! j) = 0}"
  proof (cases "remaining_time (procs s ! i) = 1")
    case True
    have "{j. j < n \<and> remaining_time (procs ?s' ! j) = 0}
        = insert i {j. j < n \<and> remaining_time (procs s ! j) = 0}"
      using True i by (auto simp: run_unit_remaining [OF il])
    moreover have "i \<notin> {j. j < n \<and> remaining_time (procs s ! j) = 0}"
      using True by simp
    moreover have "finite {j. j < n \<and> remaining_time (procs s ! j) = 0}" by simp
    ultimately show ?thesis
      using True cnt by (simp add: run_unit_completed [OF il])
  next
    case False
    have "{j. j < n \<and> remaining_time (procs ?s' ! j) = 0}
        = {j. j < n \<and> remaining_time (procs s ! j) = 0}"
      using False ri by (auto simp: run_unit_remaining [OF il])
    then show ?thesis
      using False cnt by (simp add: run_unit_completed [OF il])
  qed
  from len per' cnt' show ?thesis
    unfolding live_def by simp
qed

lemma live_jump: "live n s \<Longrightarrow> live n (s\<lparr>current_time := a\<rparr>)"
  by (simp add: live_def)

lemma good_live: "good n s \<Longrightarrow> live n s"
  by (simp add: good_def)

lemma rest_work_pos:
  assumes "live n s" "i < n" "0 < remaining_time (procs s ! i)"
  shows "0 < rest_work n s"
proof -
  have "remaining_time (procs s ! i) \<le> rest_work n s"
    unfolding rest_work_def
    by (rule member_le_sum [where f = "\<lambda>j. remaining_time (procs s ! j)"])
       (use assms in \<open>auto simp: live_def\<close>)
  with assms(3) show ?thesis by simp
qed

lemma good_run_unit:
  assumes g: "good n s" and i: "i < n" and el: "eligible (procs s) (current_time s) i"
  shows "good n (run_unit s i)"
proof -
  let ?s' = "run_unit s i"
  have lv: "live n s" using g by (rule good_live)
  have len: "n \<le> length (procs s)" and il: "i < length (procs s)"
    using lv i by (auto simp: live_def)
  have ri: "0 < remaining_time (procs s ! i)" and ai: "arrival_time (procs s ! i) \<le> current_time s"
    using el by (auto simp: eligible_def)
  have t0: "0 \<le> current_time s" and tr: "current_time s + rest_work n s \<le> INT_MAX"
    using g by (simp_all add: good_def)
  have rp: "0 < rest_work n s" using rest_work_pos [OF lv i ri] .
  have tm: "current_time ?s' = current_time s + 1"
    using t0 tr rp by (simp add: wrap_int_id INT_MAX_def)
  have rw: "rest_work n ?s' = rest_work n s - 1"
    using rest_work_run_unit [OF i len] .
  have per: "\<And>j. j < n \<Longrightarrow> valid_process (procs s ! j) \<and>
             arrival_time (procs s ! j) + rest_work n s \<le> INT_MAX \<and>
             remaining_time (procs s ! j) \<le> burst_time (procs s ! j) \<and>
             (remaining_time (procs s ! j) < burst_time (procs s ! j) \<longrightarrow>
                arrival_time (procs s ! j) + burst_time (procs s ! j) - remaining_time (procs s ! j)
                  \<le> current_time s) \<and>
             (remaining_time (procs s ! j) = 0 \<longrightarrow>
                arrival_time (procs s ! j) + burst_time (procs s ! j) \<le> completion_time (procs s ! j))"
    using g by (simp add: good_def)
  have other: "\<And>j. j \<noteq> i \<Longrightarrow> procs ?s' ! j = procs s ! j"
    by (rule run_unit_other)
  have self: "procs ?s' ! i =
     (procs s ! i)\<lparr>remaining_time := remaining_time (procs s ! i) - 1,
                   completion_time := (if remaining_time (procs s ! i) = 1
                                       then current_time s + 1
                                       else completion_time (procs s ! i))\<rparr>"
    using run_unit_self [OF il] tm by simp
  have per': "valid_process (procs ?s' ! j) \<and>
             arrival_time (procs ?s' ! j) + (rest_work n s - 1) \<le> INT_MAX \<and>
             remaining_time (procs ?s' ! j) \<le> burst_time (procs ?s' ! j) \<and>
             (remaining_time (procs ?s' ! j) < burst_time (procs ?s' ! j) \<longrightarrow>
                arrival_time (procs ?s' ! j) + burst_time (procs ?s' ! j) - remaining_time (procs ?s' ! j)
                  \<le> current_time s + 1) \<and>
             (remaining_time (procs ?s' ! j) = 0 \<longrightarrow>
                arrival_time (procs ?s' ! j) + burst_time (procs ?s' ! j) \<le> completion_time (procs ?s' ! j))"
    if j: "j < n" for j
  proof (cases "j = i")
    case True
    from per [OF i] ri ai show ?thesis
      unfolding True self by (auto simp: valid_process_def)
  next
    case False
    from per [OF j] show ?thesis
      unfolding other [OF False] by auto
  qed
  have "live n ?s'" using live_run_unit [OF lv i ri] .
  moreover have "0 \<le> current_time s + 1" using t0 by simp
  moreover have "current_time s + 1 + (rest_work n s - 1) \<le> INT_MAX" using tr by simp
  ultimately show ?thesis
    unfolding good_def tm rw using per' by simp
qed

lemma good_run_unit_time:
  assumes g: "good n s" and i: "i < n" and el: "eligible (procs s) (current_time s) i"
  shows "current_time (run_unit s i) = current_time s + 1"
proof -
  have lv: "live n s" using g by (rule good_live)
  have ri: "0 < remaining_time (procs s ! i)"
    using el by (auto simp: eligible_def)
  have t0: "0 \<le> current_time s" and tr: "current_time s + rest_work n s \<le> INT_MAX"
    using g by (simp_all add: good_def)
  have rp: "0 < rest_work n s" using rest_work_pos [OF lv i ri] .
  show ?thesis
    using t0 tr rp by (simp add: wrap_int_id INT_MAX_def)
qed

lemma good_jump:
  assumes "good n s" "current_time s \<le> a" "j < n" "a = arrival_time (procs s ! j)"
  shows "good n (s\<lparr>current_time := a\<rparr>)"
proof -
  have rw: "rest_work n (s\<lparr>current_time := a\<rparr>) = rest_work n s"
    by (simp add: rest_work_def)
  have "a + rest_work n s \<le> INT_MAX"
    using assms(1,3,4) by (simp add: good_def)
  moreover have "0 \<le> a" using assms(1,2) by (simp add: good_def)
  moreover have "live n (s\<lparr>current_time := a\<rparr>)"
    using good_live [OF assms(1)] by (rule live_jump)
  ultimately show ?thesis
    using assms(1,2) unfolding good_def rw by (auto intro: order_trans)
qed

subsection \<open>The body of the main loop of SRT\<close>

lemma srt_iteration_cases:
  assumes range: "\<forall>i<n. remaining_time (procs s ! i) \<le> INT_MAX"
    and it: "srt_iteration n s = Inr r"
  shows "(\<exists>i<n. eligible (procs s) (current_time s) i \<and>
            (\<forall>j<n. eligible (procs s) (current_time s) j \<longrightarrow> srt_key_le (procs s ! i) (procs s ! j)) \<and>
            r = Next (run_unit s i)) \<or>
         ((\<forall>i<n. \<not> eligible (procs s) (current_time s) i) \<and>
          (if next_arrival_scan (procs s) (current_time s) n = INT_MAX then r = Break
           else r = Next (s\<lparr>current_time := next_arrival_scan (procs s) (current_time s) n\<rparr>)))"
proof -
  from it obtain sh m where scan: "srt_scan (procs s) (current_time s) n n = Inr (sh, m)"
    by (auto simp: srt_iteration_def split: sum.splits)
  from srt_scan_spec [OF range order_refl scan]
  show ?thesis
  proof
    assume none: "sh = - 1 \<and> m = INT_MAX \<and> (\<forall>i<n. \<not> eligible (procs s) (current_time s) i)"
    with it scan show ?thesis
      by (simp add: srt_iteration_def Let_def split: if_splits)
  next
    assume some: "0 \<le> sh \<and> nat sh < n \<and> eligible (procs s) (current_time s) (nat sh) \<and>
      m = remaining_time (procs s ! nat sh) \<and>
      (\<forall>i<n. eligible (procs s) (current_time s) i \<longrightarrow> srt_key_le (procs s ! nat sh) (procs s ! i))"
    then have "sh \<noteq> - 1" by simp
    with it scan have "r = Next (run_unit s (nat sh))"
      by (simp add: srt_iteration_def)
    with some show ?thesis by blast
  qed
qed

lemma srt_iteration_no_fault:
  assumes "\<forall>i<n. remaining_time (procs s ! i) < INT_MAX"
  shows "\<exists>r. srt_iteration n s = Inr r"
proof -
  from srt_scan_no_fault [OF assms order_refl]
  obtain sh m where "srt_scan (procs s) (current_time s) n n = Inr (sh, m)" by blast
  then show ?thesis
    by (simp add: srt_iteration_def Let_def)
qed

text \<open>What one pass through the body does to the state, whichever branch it takes.\<close>

lemma srt_iteration_next:
  assumes range: "\<forall>i<n. remaining_time (procs s ! i) \<le> INT_MAX"
    and it: "srt_iteration n s = Inr (Next s')"
  shows "(\<exists>i<n. eligible (procs s) (current_time s) i \<and> s' = run_unit s i) \<or>
         (\<exists>j<n. 0 < remaining_time (procs s ! j) \<and> current_time s < arrival_time (procs s ! j) \<and>
                s' = s\<lparr>current_time := arrival_time (procs s ! j)\<rparr>)"
proof -
  from srt_iteration_cases [OF range it]
  show ?thesis
  proof
    assume "\<exists>i<n. eligible (procs s) (current_time s) i \<and>
            (\<forall>j<n. eligible (procs s) (current_time s) j \<longrightarrow> srt_key_le (procs s ! i) (procs s ! j)) \<and>
            Next s' = Next (run_unit s i)"
    then show ?thesis by auto
  next
    assume a: "(\<forall>i<n. \<not> eligible (procs s) (current_time s) i) \<and>
          (if next_arrival_scan (procs s) (current_time s) n = INT_MAX then Next s' = Break
           else Next s' = Next (s\<lparr>current_time := next_arrival_scan (procs s) (current_time s) n\<rparr>))"
    then have ne: "next_arrival_scan (procs s) (current_time s) n \<noteq> INT_MAX"
      and s': "s' = s\<lparr>current_time := next_arrival_scan (procs s) (current_time s) n\<rparr>"
      by (auto split: if_splits)
    from next_arrival_scan_cases [of "procs s" "current_time s" n] ne s'
    show ?thesis by auto
  qed
qed

lemma srt_iteration_work_left:
  assumes "n \<le> length (procs s)" "\<forall>i<n. remaining_time (procs s ! i) \<le> INT_MAX"
    and "srt_iteration n s = Inr (Next s')"
  shows "work_left n s' < work_left n s"
  using srt_iteration_next [OF assms(2,3)] assms(1)
  by (auto simp: eligible_def intro: work_left_run_unit work_left_jump)

lemma srt_iteration_static:
  assumes "srt_iteration n s = Inr (Next s')"
  shows "map static_fields (procs s') = map static_fields (procs s)"
  using assms
  by (auto simp: srt_iteration_def Let_def run_unit_static split: sum.splits prod.splits if_splits)

lemma srt_iteration_good:
  assumes "good n s" "\<forall>i<n. remaining_time (procs s ! i) \<le> INT_MAX"
    and "srt_iteration n s = Inr (Next s')"
  shows "good n s'"
  using srt_iteration_next [OF assms(2,3)]
proof
  assume "\<exists>i<n. eligible (procs s) (current_time s) i \<and> s' = run_unit s i"
  with assms(1) show ?thesis by (auto intro: good_run_unit)
next
  assume "\<exists>j<n. 0 < remaining_time (procs s ! j) \<and> current_time s < arrival_time (procs s ! j) \<and>
                s' = s\<lparr>current_time := arrival_time (procs s ! j)\<rparr>"
  then obtain j where j: "j < n" "current_time s < arrival_time (procs s ! j)"
    "s' = s\<lparr>current_time := arrival_time (procs s ! j)\<rparr>" by blast
  from good_jump [OF assms(1) _ j(1) refl] j(2,3) show ?thesis by simp
qed

lemma srt_iteration_live:
  assumes "live n s" "\<forall>i<n. remaining_time (procs s ! i) \<le> INT_MAX"
    and "srt_iteration n s = Inr (Next s')"
  shows "live n s'"
  using srt_iteration_next [OF assms(2,3)] assms(1)
  by (auto simp: eligible_def intro: live_run_unit live_jump)

lemma live_unfinished:
  assumes "live n s" "completed s < n"
  shows "\<exists>i<n. 0 < remaining_time (procs s ! i)"
proof (rule ccontr)
  assume "\<not> (\<exists>i<n. 0 < remaining_time (procs s ! i))"
  with assms(1) have "\<forall>i<n. remaining_time (procs s ! i) = 0"
    by (auto simp: live_def) (metis order_antisym_conv not_less)
  then have "{i. i < n \<and> remaining_time (procs s ! i) = 0} = {..<n}" by auto
  with assms show False by (simp add: live_def)
qed

lemma live_finished:
  assumes "live n s" "\<not> completed s < n"
  shows "completed s = n \<and> (\<forall>i<n. remaining_time (procs s ! i) = 0)"
proof -
  let ?D = "{i. i < n \<and> remaining_time (procs s ! i) = 0}"
  have sub: "?D \<subseteq> {..<n}" by auto
  have c: "completed s = card ?D" using assms(1) by (simp add: live_def)
  have "card ?D \<le> card {..<n}" by (rule card_mono) (use sub in auto)
  with c assms(2) have eq: "card ?D = card {..<n}" by simp
  have "?D = {..<n}" by (rule card_subset_eq) (use sub eq in auto)
  then have "\<forall>i<n. remaining_time (procs s ! i) = 0" by blast
  with c eq show ?thesis by simp
qed

lemmas good_finished = live_finished [OF good_live]

lemma srt_iteration_no_break:
  assumes g: "live n s" and range: "\<forall>i<n. remaining_time (procs s ! i) \<le> INT_MAX"
    and c: "completed s < n"
  shows "srt_iteration n s \<noteq> Inr Break"
proof
  assume br: "srt_iteration n s = Inr Break"
  from srt_iteration_cases [OF range br]
  have none: "\<forall>i<n. \<not> eligible (procs s) (current_time s) i"
    and na: "next_arrival_scan (procs s) (current_time s) n = INT_MAX"
    by (auto split: if_splits)
  from live_unfinished [OF g c] obtain i where i: "i < n" "0 < remaining_time (procs s ! i)"
    by blast
  with none have "current_time s < arrival_time (procs s ! i)"
    by (auto simp: eligible_def)
  from next_arrival_scan_le [OF i(1) i(2) this] na
  have "INT_MAX \<le> arrival_time (procs s ! i)" by simp
  moreover have "arrival_time (procs s ! i) < INT_MAX"
    using g i(1) by (auto simp: live_def)
  ultimately show False by simp
qed

subsection \<open>The main loop of SRT\<close>

lemma srt_loop_total:
  assumes "I s"
    and step: "\<And>s. I s \<Longrightarrow> completed s < n \<Longrightarrow>
            \<exists>r. srt_iteration n s = Inr r \<and>
                (case r of Break \<Rightarrow> Q s | Next s' \<Rightarrow> I s' \<and> work_left n s' < work_left n s)"
    and exit: "\<And>s. I s \<Longrightarrow> \<not> completed s < n \<Longrightarrow> Q s"
  shows "\<exists>s'. srt_loop n s = Some (Inr s') \<and> Q s'"
  using assms(1)
proof (induction "work_left n s" arbitrary: s rule: less_induct)
  case less
  show ?case
  proof (cases "completed s < n")
    case False
    with exit [OF less.prems] show ?thesis
      by (subst srt_loop.simps) simp
  next
    case True
    from step [OF less.prems True] obtain r where
      r: "srt_iteration n s = Inr r"
      and c: "case r of Break \<Rightarrow> Q s | Next s' \<Rightarrow> I s' \<and> work_left n s' < work_left n s"
      by blast
    show ?thesis
    proof (cases r)
      case Break
      with r c True show ?thesis
        by (subst srt_loop.simps) simp
    next
      case (Next s')
      with c have "I s'" "work_left n s' < work_left n s" by simp_all
      from less.hyps [OF this(2) this(1)] obtain s'' where
        "srt_loop n s' = Some (Inr s'')" "Q s''" by blast
      with r Next True show ?thesis
        by (subst srt_loop.simps) simp
    qed
  qed
qed

lemmas srt_loop_induct = srt_loop.raw_induct [rotated, consumes 1, case_names step]

lemma srt_loop_static_aux:
  "srt_loop n s = Some r \<Longrightarrow>
   (\<forall>s'. r = Inr s' \<longrightarrow> map static_fields (procs s') = map static_fields (procs s))"
proof (induction rule: srt_loop_induct)
  case 1: (step f n s r)
  show ?case
  proof (cases "completed s < n")
    case False
    with 1(2) show ?thesis by auto
  next
    case True
    show ?thesis
    proof (cases "srt_iteration n s")
      case (Inl e)
      with 1(2) True show ?thesis by auto
    next
      case (Inr fl)
      show ?thesis
      proof (cases fl)
        case Break
        with 1(2) True Inr show ?thesis by auto
      next
        case (Next s1)
        with 1(2) True Inr have "f n s1 = Some r" by simp
        from 1(1) [OF this] srt_iteration_static [of n s s1] Inr Next
        show ?thesis by simp
      qed
    qed
  qed
qed

lemma srt_loop_static:
  "srt_loop n s = Some (Inr s') \<Longrightarrow> map static_fields (procs s') = map static_fields (procs s)"
  using srt_loop_static_aux by blast

subsection \<open>The state at the head of the loop\<close>

lemma loop_start_nth:
  assumes "nat (num_processes ctx) \<le> length (processes ctx)" "i < nat (num_processes ctx)"
  shows "procs (loop_start (reset_process_states ctx)) ! i =
           (processes ctx ! i)\<lparr>remaining_time := burst_time (processes ctx ! i), completion_time := 0\<rparr>"
  using assms
  by (simp add: loop_start_def reset_process_states_def init_remaining_nth reset_process_def)

lemma loop_start_simps [simp]:
  "current_time (loop_start ctx) = 0" "completed (loop_start ctx) = 0"
  "length (procs (loop_start ctx)) = length (processes ctx)"
  by (simp_all add: loop_start_def)

lemma reset_simps [simp]:
  "num_processes (reset_process_states ctx) = num_processes ctx"
  "time_quantum (reset_process_states ctx) = time_quantum ctx"
  "length (processes (reset_process_states ctx)) = length (processes ctx)"
  by (simp_all add: reset_process_states_def)

lemma init_remaining_static:
  "map static_fields (init_remaining ps k) = map static_fields ps"
proof (induction k)
  case 0
  then show ?case by simp
next
  case (Suc k)
  have "map static_fields ((init_remaining ps k)[k := (init_remaining ps k ! k)
            \<lparr>remaining_time := burst_time (init_remaining ps k ! k)\<rparr>])
        = (map static_fields (init_remaining ps k))[k := static_fields (init_remaining ps k ! k)]"
    by (simp add: map_update static_fields_def)
  also have "\<dots> = map static_fields (init_remaining ps k)"
    by (cases "k < length ps") (simp_all add: list_update_same_conv list_update_beyond)
  finally show ?case using Suc by (simp add: Let_def)
qed

lemma loop_start_static:
  "map static_fields (procs (loop_start (reset_process_states ctx))) = map static_fields (processes ctx)"
  by (simp add: loop_start_def init_remaining_static reset_process_states_def
      static_fields_def reset_process_def)

lemma valid_input_nth:
  assumes "valid_input ctx" "i < nat (num_processes ctx)"
  shows "valid_process (processes ctx ! i)"
  using assms by (auto simp: valid_input_def list_all_length)

lemma sum_list_take_nth:
  fixes f :: "'a \<Rightarrow> int"
  assumes "n \<le> length xs"
  shows "sum_list (map f (take n xs)) = (\<Sum>i<n. f (xs ! i))"
proof -
  have "sum_list (map f (take n xs)) = (\<Sum>i = 0..<length (map f (take n xs)). map f (take n xs) ! i)"
    by (rule sum_list_sum_nth)
  also have "\<dots> = (\<Sum>i = 0..<n. f (xs ! i))"
    using assms by (intro sum.cong) auto
  finally show ?thesis by (simp add: atLeast0LessThan)
qed

lemma rest_work_start:
  assumes "nat (num_processes ctx) \<le> length (processes ctx)"
  shows "rest_work (nat (num_processes ctx)) (loop_start (reset_process_states ctx)) = total_burst ctx"
proof -
  have "rest_work (nat (num_processes ctx)) (loop_start (reset_process_states ctx))
      = (\<Sum>i<nat (num_processes ctx). burst_time (processes ctx ! i))"
    unfolding rest_work_def
    by (rule sum.cong) (simp_all add: loop_start_nth [OF assms])
  then show ?thesis
    by (simp add: total_burst_def sum_list_take_nth [OF assms])
qed

lemma loop_start_zeros:
  assumes "valid_input ctx"
  shows "{i. i < nat (num_processes ctx) \<and>
             remaining_time (procs (loop_start (reset_process_states ctx)) ! i) = 0} = {}"
proof -
  let ?n = "nat (num_processes ctx)"
  have len: "?n \<le> length (processes ctx)" using assms by (simp add: valid_input_def)
  have v: "\<forall>i<?n. valid_process (processes ctx ! i)"
    using valid_input_nth [OF assms] by blast
  then show ?thesis
    by (fastforce simp: loop_start_nth [OF len] valid_process_def)
qed

lemma loop_start_live:
  assumes "valid_input ctx" "arrival_bounded ctx"
  shows "live (nat (num_processes ctx)) (loop_start (reset_process_states ctx))"
proof -
  let ?n = "nat (num_processes ctx)"
  have len: "?n \<le> length (processes ctx)" using assms by (simp add: valid_input_def)
  have v: "\<forall>i<?n. valid_process (processes ctx ! i)"
    using valid_input_nth [OF assms(1)] by blast
  have a: "\<forall>i<?n. arrival_time (processes ctx ! i) < INT_MAX"
    using assms(2) len by (auto simp: arrival_bounded_def list_all_length)
  show ?thesis
    using len v a loop_start_zeros [OF assms(1)]
    by (auto simp: live_def loop_start_nth [OF len] valid_process_def)
qed

lemma clock_fits_nth:
  assumes "clock_fits ctx" "nat (num_processes ctx) \<le> length (processes ctx)"
    and "i < nat (num_processes ctx)"
  shows "arrival_time (processes ctx ! i) + total_burst ctx \<le> INT_MAX"
  using assms by (auto simp: clock_fits_def list_all_length)

lemma clock_fits_arrival_bounded:
  assumes "valid_input ctx" "clock_fits ctx"
  shows "arrival_bounded ctx"
proof -
  let ?n = "nat (num_processes ctx)"
  have len: "?n \<le> length (processes ctx)" using assms by (simp add: valid_input_def)
  have "arrival_time (processes ctx ! i) < INT_MAX" if i: "i < ?n" for i
  proof -
    have "burst_time (processes ctx ! i) \<le> (\<Sum>j<?n. burst_time (processes ctx ! j))"
      by (rule member_le_sum [where f = "\<lambda>j. burst_time (processes ctx ! j)"])
         (use valid_input_nth [OF assms(1)] i in \<open>auto simp: valid_process_def intro!: less_imp_le\<close>)
    then have "burst_time (processes ctx ! i) \<le> total_burst ctx"
      by (simp add: total_burst_def sum_list_take_nth [OF len])
    moreover have "0 < burst_time (processes ctx ! i)"
      using valid_input_nth [OF assms(1) i] by (simp add: valid_process_def)
    ultimately show ?thesis
      using clock_fits_nth [OF assms(2) len i] by simp
  qed
  then show ?thesis
    using len by (simp add: arrival_bounded_def list_all_length)
qed

lemma loop_start_good:
  assumes "valid_input ctx" "clock_fits ctx"
  shows "good (nat (num_processes ctx)) (loop_start (reset_process_states ctx))"
proof -
  let ?n = "nat (num_processes ctx)"
  have len: "?n \<le> length (processes ctx)" using assms by (simp add: valid_input_def)
  have v: "\<forall>i<?n. valid_process (processes ctx ! i)"
    using valid_input_nth [OF assms(1)] by blast
  have lv: "live ?n (loop_start (reset_process_states ctx))"
    using loop_start_live [OF assms(1) clock_fits_arrival_bounded [OF assms]] .
  have tb: "total_burst ctx \<le> INT_MAX" using assms(2) by (simp add: clock_fits_def)
  show ?thesis
    unfolding good_def rest_work_start [OF len]
    using lv v tb clock_fits_nth [OF assms(2) len]
    by (auto simp: loop_start_nth [OF len] valid_process_def)
qed

lemma loop_start_bounded:
  assumes "nat (num_processes ctx) \<le> length (processes ctx)"
    and "\<forall>i<nat (num_processes ctx). burst_time (processes ctx ! i) < INT_MAX"
  shows "bounded (nat (num_processes ctx)) (loop_start (reset_process_states ctx))"
  using assms by (simp add: bounded_def loop_start_nth)

lemma bounded_run_unit:
  assumes "bounded n s" "i < n"
  shows "bounded n (run_unit s i)"
proof -
  have il: "i < length (procs s)" using assms by (simp add: bounded_def)
  show ?thesis
    using assms by (auto simp: bounded_def run_unit_remaining [OF il])
qed

lemma bounded_le: "bounded n s \<Longrightarrow> \<forall>i<n. remaining_time (procs s ! i) \<le> INT_MAX"
  by (auto simp: bounded_def intro!: less_imp_le)

lemma srt_iteration_bounded:
  assumes "bounded n s" "srt_iteration n s = Inr (Next s')"
  shows "bounded n s'"
proof -
  from srt_iteration_next [OF bounded_le [OF assms(1)] assms(2)]
  show ?thesis
  proof
    assume "\<exists>i<n. eligible (procs s) (current_time s) i \<and> s' = run_unit s i"
    with assms(1) show ?thesis by (auto intro: bounded_run_unit)
  next
    assume "\<exists>j<n. 0 < remaining_time (procs s ! j) \<and> current_time s < arrival_time (procs s ! j) \<and>
                s' = s\<lparr>current_time := arrival_time (procs s ! j)\<rparr>"
    with assms(1) show ?thesis by (auto simp: bounded_def)
  qed
qed

lemma srt_steps_bounded:
  assumes "bounded n s0" "srt_steps n k s0 = Some s"
  shows "bounded n s"
  using assms(2)
proof (induction k arbitrary: s)
  case 0
  with assms(1) show ?case by simp
next
  case (Suc k)
  then obtain s1 where s1: "srt_steps n k s0 = Some s1" and it: "srt_iteration n s1 = Inr (Next s)"
    by (auto split: option.splits if_splits sum.splits flow.splits)
  from Suc.IH [OF s1] it show ?case
    by (rule srt_iteration_bounded)
qed

lemma srt_loop_bounded_total:
  assumes "bounded n s"
  shows "\<exists>s'. srt_loop n s = Some (Inr s')"
proof -
  have "\<exists>s'. srt_loop n s = Some (Inr s') \<and> True"
  proof (rule srt_loop_total [where I = "bounded n"])
    show "bounded n s" by fact
  next
    fix s assume b: "bounded n s"
    from srt_iteration_no_fault [of n s] b obtain r where r: "srt_iteration n s = Inr r"
      by (auto simp: bounded_def)
    have "case r of Break \<Rightarrow> True | Next s' \<Rightarrow> bounded n s' \<and> work_left n s' < work_left n s"
    proof (cases r)
      case Break then show ?thesis by simp
    next
      case (Next s')
      with r b srt_iteration_bounded [of n s s']
        srt_iteration_work_left [of n s s'] bounded_le [OF b]
      show ?thesis by (simp add: bounded_def)
    qed
    with r show "\<exists>r. srt_iteration n s = Inr r \<and>
        (case r of Break \<Rightarrow> True | Next s' \<Rightarrow> bounded n s' \<and> work_left n s' < work_left n s)"
      by blast
  qed simp
  then show ?thesis by simp
qed

lemma srt_steps_live:
  assumes "live n s0" "bounded n s0" "srt_steps n k s0 = Some s"
  shows "live n s"
  using assms(3)
proof (induction k arbitrary: s)
  case 0
  with assms(1) show ?case by simp
next
  case (Suc k)
  then obtain s1 where s1: "srt_steps n k s0 = Some s1" and it: "srt_iteration n s1 = Inr (Next s)"
    by (auto split: option.splits if_splits sum.splits flow.splits)
  from srt_iteration_live [OF Suc.IH [OF s1] bounded_le [OF srt_steps_bounded [OF assms(2) s1]] it]
  show ?case .
qed

lemma srt_steps_good:
  assumes "good n s0" "bounded n s0" "srt_steps n k s0 = Some s"
  shows "good n s"
  using assms(3)
proof (induction k arbitrary: s)
  case 0
  with assms(1) show ?case by simp
next
  case (Suc k)
  then obtain s1 where s1: "srt_steps n k s0 = Some s1" and it: "srt_iteration n s1 = Inr (Next s)"
    by (auto split: option.splits if_splits sum.splits flow.splits)
  from srt_iteration_good [OF Suc.IH [OF s1] bounded_le [OF srt_steps_bounded [OF assms(2) s1]] it]
  show ?case .
qed

text \<open>With no arrival at \<open>INT_MAX\<close> and the bursts below it, the loop ends at the head of the
  loop, in a state that a number of passes through the body lead to.\<close>

lemma srt_loop_steps:
  assumes "live n s0" "bounded n s0"
  shows "\<exists>s. srt_loop n s0 = Some (Inr s) \<and> (\<exists>k. srt_steps n k s0 = Some s) \<and> \<not> completed s < n"
proof (rule srt_loop_total [where I = "\<lambda>s. \<exists>k. srt_steps n k s0 = Some s"])
  have "srt_steps n 0 s0 = Some s0" by simp
  then show "\<exists>k. srt_steps n k s0 = Some s0" ..
next
  fix s assume ex: "\<exists>k. srt_steps n k s0 = Some s" and c: "completed s < n"
  from ex obtain k where k: "srt_steps n k s0 = Some s" ..
  have g: "live n s" using srt_steps_live [OF assms k] .
  have b: "bounded n s" using srt_steps_bounded [OF assms(2) k] .
  have lt: "\<forall>i<n. remaining_time (procs s ! i) < INT_MAX" using b by (simp add: bounded_def)
  note le = bounded_le [OF b]
  from srt_iteration_no_fault [OF lt] obtain r where r: "srt_iteration n s = Inr r"
    by blast
  have "case r of Break \<Rightarrow> (\<exists>k. srt_steps n k s0 = Some s) \<and> \<not> completed s < n
        | Next s' \<Rightarrow> (\<exists>k. srt_steps n k s0 = Some s') \<and> work_left n s' < work_left n s"
  proof (cases r)
    case Break
    with r srt_iteration_no_break [OF g le c] show ?thesis by simp
  next
    case (Next s')
    have "n \<le> length (procs s)" using g by (simp add: live_def)
    from srt_iteration_work_left [OF this le] r Next
    have "work_left n s' < work_left n s" by simp
    moreover have "srt_steps n (Suc k) s0 = Some s'"
      using k c r Next by simp
    then have "\<exists>k. srt_steps n k s0 = Some s'" ..
    ultimately show ?thesis using Next by simp
  qed
  with r show "\<exists>r. srt_iteration n s = Inr r \<and>
      (case r of Break \<Rightarrow> (\<exists>k. srt_steps n k s0 = Some s) \<and> \<not> completed s < n
       | Next s' \<Rightarrow> (\<exists>k. srt_steps n k s0 = Some s') \<and> work_left n s' < work_left n s)"
    by blast
qed simp

lemma srt_loop_good_total:
  assumes "good n s" "bounded n s"
  shows "\<exists>s'. srt_loop n s = Some (Inr s') \<and> good n s' \<and> \<not> completed s' < n"
proof -
  from srt_loop_steps [OF good_live [OF assms(1)] assms(2)] obtain s' k where
    s': "srt_loop n s = Some (Inr s')" "srt_steps n k s = Some s'" "\<not> completed s' < n"
    by blast
  from srt_steps_good [OF assms s'(2)] s'(1,3) show ?thesis by blast
qed

lemma burst_bounded_start:
  assumes "burst_bounded ctx"
  shows "bounded (nat (num_processes ctx)) (loop_start (reset_process_states ctx))"
proof (rule loop_start_bounded)
  show "nat (num_processes ctx) \<le> length (processes ctx)"
    using assms by (simp add: burst_bounded_def)
  show "\<forall>i<nat (num_processes ctx). burst_time (processes ctx ! i) < INT_MAX"
    using assms by (auto simp: burst_bounded_def list_all_length)
qed

text \<open>
  Claim C2, as amended. At every step of \<^verbatim>\<open>shortest_remaining_time_first\<close> on an input whose
  bursts are all below \<open>INT_MAX\<close> (every state \<open>s\<close> at the head of the main loop of such a run),
  if some process is eligible (arrived, with remaining time above 0) then the loop body runs one
  unit of an eligible process \<open>i\<close> that is least among the eligible ones in the order: remaining
  time, then arrival time, then pid. In particular an eligible process with the same remaining
  time and the same arrival time as \<open>i\<close> does not have a smaller pid. The amendment is the bound
  on the bursts.
\<close>

theorem srt_selects_minimum:
  assumes "burst_bounded ctx"
    and "srt_steps (nat (num_processes ctx)) k (loop_start (reset_process_states ctx)) = Some s"
    and "j < nat (num_processes ctx)" "eligible (procs s) (current_time s) j"
  shows "\<exists>i<nat (num_processes ctx).
           eligible (procs s) (current_time s) i \<and>
           srt_iteration (nat (num_processes ctx)) s = Inr (Next (run_unit s i)) \<and>
           (\<forall>j<nat (num_processes ctx). eligible (procs s) (current_time s) j \<longrightarrow>
              srt_key_le (procs s ! i) (procs s ! j)) \<and>
           (\<forall>j<nat (num_processes ctx). eligible (procs s) (current_time s) j \<and>
              remaining_time (procs s ! j) = remaining_time (procs s ! i) \<and>
              arrival_time (procs s ! j) = arrival_time (procs s ! i) \<longrightarrow>
              pid (procs s ! i) \<le> pid (procs s ! j))"
proof -
  let ?n = "nat (num_processes ctx)"
  have b: "bounded ?n s"
    using srt_steps_bounded [OF burst_bounded_start [OF assms(1)] assms(2)] .
  then obtain r where r: "srt_iteration ?n s = Inr r"
    using srt_iteration_no_fault [of ?n s] by (auto simp: bounded_def)
  from srt_iteration_cases [OF bounded_le [OF b] r] assms(3,4)
  obtain i where i: "i < ?n" "eligible (procs s) (current_time s) i"
    "\<forall>j<?n. eligible (procs s) (current_time s) j \<longrightarrow> srt_key_le (procs s ! i) (procs s ! j)"
    "r = Next (run_unit s i)"
    by blast
  have "\<forall>j<?n. eligible (procs s) (current_time s) j \<and>
              remaining_time (procs s ! j) = remaining_time (procs s ! i) \<and>
              arrival_time (procs s ! j) = arrival_time (procs s ! i) \<longrightarrow>
              pid (procs s ! i) \<le> pid (procs s ! j)"
    using i(3) by (auto simp: srt_key_le_def)
  with i r show ?thesis by blast
qed

text \<open>The theorem at a tie: the two processes of \<open>srt_tie\<close> are eligible at the first pass,
  with the same remaining time and the same arrival time, and the body runs the process in the
  second cell, which has the smaller pid.\<close>

theorem srt_selects_minimum_witness:
  "burst_bounded srt_tie \<and>
   srt_steps (nat (num_processes srt_tie)) 0 (loop_start (reset_process_states srt_tie))
     = Some (loop_start (reset_process_states srt_tie)) \<and>
   (0::nat) < nat (num_processes srt_tie) \<and>
   eligible (procs (loop_start (reset_process_states srt_tie)))
     (current_time (loop_start (reset_process_states srt_tie))) 0 \<and>
   eligible (procs (loop_start (reset_process_states srt_tie)))
     (current_time (loop_start (reset_process_states srt_tie))) 1 \<and>
   remaining_time (procs (loop_start (reset_process_states srt_tie)) ! 0)
     = remaining_time (procs (loop_start (reset_process_states srt_tie)) ! 1) \<and>
   arrival_time (procs (loop_start (reset_process_states srt_tie)) ! 0)
     = arrival_time (procs (loop_start (reset_process_states srt_tie)) ! 1) \<and>
   pid (procs (loop_start (reset_process_states srt_tie)) ! 1)
     < pid (procs (loop_start (reset_process_states srt_tie)) ! 0) \<and>
   srt_iteration (nat (num_processes srt_tie)) (loop_start (reset_process_states srt_tie))
     = Inr (Next (run_unit (loop_start (reset_process_states srt_tie)) 1))"
proof -
  let ?s = "loop_start (reset_process_states srt_tie)"
  have h1: "burst_bounded srt_tie" by code_simp
  have h2: "srt_steps (nat (num_processes srt_tie)) 0 ?s = Some ?s" by simp
  have h3: "(0::nat) < nat (num_processes srt_tie)" by code_simp
  have h4: "eligible (procs ?s) (current_time ?s) 0" by code_simp
  have h5: "eligible (procs ?s) (current_time ?s) 1" by code_simp
  have e1: "remaining_time (procs ?s ! 0) = remaining_time (procs ?s ! 1)" by code_simp
  have e2: "arrival_time (procs ?s ! 0) = arrival_time (procs ?s ! 1)" by code_simp
  have e3: "pid (procs ?s ! 1) < pid (procs ?s ! 0)" by code_simp
  have n: "nat (num_processes srt_tie) = 2" by code_simp
  from srt_selects_minimum [OF h1 h2 h3 h4] obtain i where
    i: "i < 2" "srt_iteration (nat (num_processes srt_tie)) ?s = Inr (Next (run_unit ?s i))"
      "srt_key_le (procs ?s ! i) (procs ?s ! 1)"
    using h5 unfolding n by (metis one_less_numeral_iff semiring_norm(76))
  have "\<not> srt_key_le (procs ?s ! 0) (procs ?s ! 1)"
    by code_simp
  with i(1,3) have "i = 1" by (cases "i = 0") auto
  with i(2) h1 h2 h3 h4 h5 e1 e2 e3 show ?thesis by simp
qed

text \<open>
  The claim as stated fails on a burst of \<open>INT_MAX\<close>, the value the selection loop starts
  \<^verbatim>\<open>min_remaining_time\<close> with. The one process of \<open>huge_burst\<close> is eligible at the first pass
  (it arrives at 0 and has \<open>INT_MAX\<close> units left), yet it is not selected: its remaining time
  equals \<^verbatim>\<open>min_remaining_time\<close>, so the loop takes the tie-break branch while \<^verbatim>\<open>shortest\<close>
  is still \<open>-1\<close> and reads \<^verbatim>\<open>processes[-1]\<close>. The body does not run a unit of the process.
\<close>

theorem srt_selects_fault_counterexample:
  "eligible (procs (loop_start (reset_process_states huge_burst)))
     (current_time (loop_start (reset_process_states huge_burst))) 0 \<and>
   remaining_time (procs (loop_start (reset_process_states huge_burst)) ! 0) = INT_MAX \<and>
   srt_scan (procs (loop_start (reset_process_states huge_burst))) 0 1 0 = Inr (- 1, INT_MAX) \<and>
   srt_scan (procs (loop_start (reset_process_states huge_burst))) 0 1 1 = Inl IndexOutOfRange \<and>
   srt_iteration 1 (loop_start (reset_process_states huge_burst)) = Inl IndexOutOfRange \<and>
   srt_iteration 1 (loop_start (reset_process_states huge_burst))
     \<noteq> Inr (Next (run_unit (loop_start (reset_process_states huge_burst)) 0))"
  by code_simp

subsection \<open>The completion times are written by the loop body\<close>

lemma srt_steps_written:
  assumes b0: "bounded n s0" and pos: "\<forall>i<n. 0 < remaining_time (procs s0 ! i)"
    and st: "srt_steps n k s0 = Some s" and i: "i < n" and z: "remaining_time (procs s ! i) = 0"
  shows "\<exists>k' sk. srt_steps n k' s0 = Some sk \<and>
           srt_iteration n sk = Inr (Next (run_unit sk i)) \<and>
           remaining_time (procs sk ! i) = 1 \<and>
           completion_time (procs s ! i) = current_time (run_unit sk i)"
  using st z
proof (induction k arbitrary: s)
  case 0
  with pos i show ?case by auto
next
  case (Suc k)
  then obtain s1 where s1: "srt_steps n k s0 = Some s1" and it: "srt_iteration n s1 = Inr (Next s)"
    by (auto split: option.splits if_splits sum.splits flow.splits)
  have b1: "bounded n s1" using srt_steps_bounded [OF b0 s1] .
  then have len: "n \<le> length (procs s1)" by (simp add: bounded_def)
  from srt_iteration_next [OF bounded_le [OF b1] it]
  show ?case
  proof
    assume "\<exists>j<n. eligible (procs s1) (current_time s1) j \<and> s = run_unit s1 j"
    then obtain j where j: "j < n" "eligible (procs s1) (current_time s1) j" "s = run_unit s1 j"
      by blast
    have jl: "j < length (procs s1)" using j(1) len by simp
    show ?thesis
    proof (cases "i = j")
      case True
      have r1: "remaining_time (procs s1 ! i) = 1"
        using Suc.prems(2) unfolding j(3) True by (simp add: run_unit_remaining [OF jl])
      have "completion_time (procs s ! i) = current_time (run_unit s1 i)"
        unfolding j(3) True using r1 True by (simp add: run_unit_self [OF jl])
      with s1 it r1 j(3) True show ?thesis by blast
    next
      case False
      then have same: "procs s ! i = procs s1 ! i"
        unfolding j(3) by (simp add: run_unit_other)
      with Suc.prems(2) have "remaining_time (procs s1 ! i) = 0" by simp
      from Suc.IH [OF s1 this] same show ?thesis by simp
    qed
  next
    assume "\<exists>j<n. 0 < remaining_time (procs s1 ! j) \<and> current_time s1 < arrival_time (procs s1 ! j) \<and>
                s = s1\<lparr>current_time := arrival_time (procs s1 ! j)\<rparr>"
    then have same: "procs s = procs s1" by auto
    with Suc.prems(2) have "remaining_time (procs s1 ! i) = 0" by simp
    from Suc.IH [OF s1 this] same show ?thesis by simp
  qed
qed

text \<open>
  Claim C5, as amended. On every input with at least one process in which every process has
  \<open>0 \<le> arrival_time < INT_MAX\<close> and \<open>0 < burst_time < INT_MAX\<close>, the main loop of
  \<^verbatim>\<open>shortest_remaining_time_first\<close> terminates without a fault, with \<open>completed\<close> equal to
  \<open>num_processes\<close> and with every process at remaining time 0 and its completion time set: the
  value the run ends with is the one the loop body wrote in the pass in which the process ran
  its last unit, the value of the clock after that unit. And at no state at the head of the loop
  with \<open>completed < n\<close> does the body take the defensive \<^verbatim>\<open>break\<close>: it always goes round again.
  The amendment is the two bounds by \<open>INT_MAX\<close>.
\<close>

theorem srt_completes_all:
  assumes "valid_input ctx" "arrival_bounded ctx" "burst_bounded ctx"
  shows "(\<exists>s. srt_loop (nat (num_processes ctx)) (loop_start (reset_process_states ctx)) = Some (Inr s) \<and>
             completed s = nat (num_processes ctx) \<and>
             (\<forall>i<nat (num_processes ctx).
                 remaining_time (procs s ! i) = 0 \<and>
                 (\<exists>k sk. srt_steps (nat (num_processes ctx)) k (loop_start (reset_process_states ctx))
                            = Some sk \<and>
                    srt_iteration (nat (num_processes ctx)) sk = Inr (Next (run_unit sk i)) \<and>
                    remaining_time (procs sk ! i) = 1 \<and>
                    completion_time (procs s ! i) = current_time (run_unit sk i))) \<and>
             shortest_remaining_time_first ctx =
               Some (Inr (display_results (reset_process_states ctx\<lparr>processes := procs s\<rparr>)
                            ''Shortest-Remaining_Time-First (SRTF)''))) \<and>
         (\<forall>k sk. srt_steps (nat (num_processes ctx)) k (loop_start (reset_process_states ctx)) = Some sk \<and>
                 completed sk < nat (num_processes ctx) \<longrightarrow>
                 (\<exists>s'. srt_iteration (nat (num_processes ctx)) sk = Inr (Next s')))"
proof -
  let ?n = "nat (num_processes ctx)"
  let ?s0 = "loop_start (reset_process_states ctx)"
  have len: "?n \<le> length (processes ctx)" using assms(1) by (simp add: valid_input_def)
  have g0: "live ?n ?s0" using loop_start_live [OF assms(1,2)] .
  have b0: "bounded ?n ?s0" using burst_bounded_start [OF assms(3)] .
  have p0: "\<forall>i<?n. 0 < remaining_time (procs ?s0 ! i)"
    using valid_input_nth [OF assms(1)] by (simp add: loop_start_nth [OF len] valid_process_def)
  from srt_loop_steps [OF g0 b0] obtain s k where
    s: "srt_loop ?n ?s0 = Some (Inr s)" "srt_steps ?n k ?s0 = Some s" "\<not> completed s < ?n"
    by blast
  have g: "live ?n s" using srt_steps_live [OF g0 b0 s(2)] .
  from live_finished [OF g s(3)] have fin: "completed s = ?n"
    "\<forall>i<?n. remaining_time (procs s ! i) = 0" by simp_all
  have wr: "\<forall>i<?n. remaining_time (procs s ! i) = 0 \<and>
                 (\<exists>k sk. srt_steps ?n k ?s0 = Some sk \<and>
                    srt_iteration ?n sk = Inr (Next (run_unit sk i)) \<and>
                    remaining_time (procs sk ! i) = 1 \<and>
                    completion_time (procs s ! i) = current_time (run_unit sk i))"
    using srt_steps_written [OF b0 p0 s(2)] fin(2) by blast
  have top: "shortest_remaining_time_first ctx =
       Some (Inr (display_results (reset_process_states ctx\<lparr>processes := procs s\<rparr>)
                    ''Shortest-Remaining_Time-First (SRTF)''))"
    using s(1) by (simp add: shortest_remaining_time_first_def Let_def)
  have nobreak: "\<exists>s'. srt_iteration ?n sk = Inr (Next s')"
    if "srt_steps ?n k ?s0 = Some sk" "completed sk < ?n" for k sk
  proof -
    have g: "live ?n sk" using srt_steps_live [OF g0 b0 that(1)] .
    have b: "bounded ?n sk" using srt_steps_bounded [OF b0 that(1)] .
    then have "\<forall>i<?n. remaining_time (procs sk ! i) < INT_MAX" by (simp add: bounded_def)
    from srt_iteration_no_fault [OF this] obtain r where
      r: "srt_iteration ?n sk = Inr r" by blast
    with srt_iteration_no_break [OF g bounded_le [OF b] that(2)] show ?thesis
      by (cases r) auto
  qed
  from s(1) fin(1) wr top nobreak show ?thesis by blast
qed

theorem srt_completes_all_witness:
  "valid_input srt_example \<and> arrival_bounded srt_example \<and> burst_bounded srt_example \<and>
   (\<exists>s. srt_loop 2 (loop_start (reset_process_states srt_example)) = Some (Inr s) \<and>
        completed s = 2 \<and>
        shortest_remaining_time_first srt_example =
          Some (Inr (srt_example\<lparr>processes :=
                       [(mk_process 1 0 8 0)\<lparr>completion_time := 12\<rparr>,
                        (mk_process 2 1 4 0)\<lparr>completion_time := 5\<rparr>]\<rparr>,
                     [''Shortest-Remaining_Time-First (SRTF)''])))"
proof -
  have h: "valid_input srt_example" by code_simp
  have ha: "arrival_bounded srt_example" by code_simp
  have hb: "burst_bounded srt_example" by code_simp
  have n: "nat (num_processes srt_example) = 2" by code_simp
  have ev: "shortest_remaining_time_first srt_example =
          Some (Inr (srt_example\<lparr>processes :=
                       [(mk_process 1 0 8 0)\<lparr>completion_time := 12\<rparr>,
                        (mk_process 2 1 4 0)\<lparr>completion_time := 5\<rparr>]\<rparr>,
                     [''Shortest-Remaining_Time-First (SRTF)'']))"
    by code_simp
  from srt_completes_all [OF h ha hb] obtain s where
    "srt_loop 2 (loop_start (reset_process_states srt_example)) = Some (Inr s)" "completed s = 2"
    unfolding n by blast
  with h ha hb ev show ?thesis by blast
qed

text \<open>
  The claim as stated fails for a process that arrives at \<open>INT_MAX\<close>, the value the idle scan
  keeps for "no future arrival": the input has one process with burst 1 and arrival time
  \<open>INT_MAX \<ge> 0\<close>, the first pass through the body takes the \<^verbatim>\<open>break\<close>, and the run ends with
  \<open>completed = 0\<close> and the completion time still cleared. It also fails for a burst of
  \<open>INT_MAX\<close>, the value the selection loop starts \<^verbatim>\<open>min_remaining_time\<close> with: the first
  eligible process takes the tie-break branch and \<^verbatim>\<open>processes[-1]\<close> is read.
\<close>

theorem srt_break_counterexample:
  "num_processes late_arrival \<ge> 1 \<and>
   burst_time (processes late_arrival ! 0) > 0 \<and>
   arrival_time (processes late_arrival ! 0) \<ge> 0 \<and>
   srt_iteration 1 (loop_start (reset_process_states late_arrival)) = Inr Break \<and>
   srt_loop 1 (loop_start (reset_process_states late_arrival))
     = Some (Inr (loop_start (reset_process_states late_arrival))) \<and>
   completed (loop_start (reset_process_states late_arrival)) = 0 \<and>
   shortest_remaining_time_first late_arrival =
     Some (Inr (reset_process_states late_arrival, [''Shortest-Remaining_Time-First (SRTF)''])) \<and>
   completion_time (processes (reset_process_states late_arrival) ! 0) = 0 \<and>
   num_processes huge_burst \<ge> 1 \<and>
   burst_time (processes huge_burst ! 0) > 0 \<and>
   arrival_time (processes huge_burst ! 0) \<ge> 0 \<and>
   shortest_remaining_time_first huge_burst = Some (Inl IndexOutOfRange)"
  by code_simp

text \<open>
  Claim C10. In a run of \<^verbatim>\<open>shortest_remaining_time_first\<close> on an input whose bursts are
  below \<open>INT_MAX\<close>, take any state \<open>s\<close> at the head of the main loop and any index \<open>i\<close> the
  selection loop visits. The rounds before \<open>i\<close> end without a fault in some
  \<open>(shortest, min_remaining_time)\<close>; if process \<open>i\<close> is eligible and takes the tie-break branch
  (its remaining time equals \<open>min_remaining_time\<close>) then \<open>0 \<le> shortest < n\<close>; and if it is
  eligible while \<open>shortest\<close> is still \<open>-1\<close>, it takes the strictly-smaller branch. So the read
  of \<^verbatim>\<open>processes[shortest]\<close> is never out of range, and the whole run ends without a fault.
\<close>

theorem srt_tie_break_read_in_range:
  assumes "burst_bounded ctx"
    and "srt_steps (nat (num_processes ctx)) k (loop_start (reset_process_states ctx)) = Some s"
    and "i < nat (num_processes ctx)"
  shows "(\<exists>shortest min_remaining_time.
            srt_scan (procs s) (current_time s) (nat (num_processes ctx)) i
              = Inr (shortest, min_remaining_time) \<and>
            (eligible (procs s) (current_time s) i \<and>
             remaining_time (procs s ! i) = min_remaining_time \<longrightarrow>
               0 \<le> shortest \<and> shortest < num_processes ctx) \<and>
            (eligible (procs s) (current_time s) i \<and> shortest = - 1 \<longrightarrow>
               remaining_time (procs s ! i) < min_remaining_time)) \<and>
         (\<exists>r. shortest_remaining_time_first ctx = Some (Inr r))"
proof -
  let ?n = "nat (num_processes ctx)"
  have b0: "bounded ?n (loop_start (reset_process_states ctx))"
    using burst_bounded_start [OF assms(1)] .
  have b: "bounded ?n s" using srt_steps_bounded [OF b0 assms(2)] .
  have lt: "\<forall>j<i. remaining_time (procs s ! j) < INT_MAX"
    and le: "\<forall>j<i. remaining_time (procs s ! j) \<le> INT_MAX"
    and ri: "remaining_time (procs s ! i) < INT_MAX"
    using b assms(3) by (auto simp: bounded_def intro!: less_imp_le)
  have in': "i \<le> ?n" using assms(3) by simp
  from srt_scan_no_fault [OF lt in'] obtain sh m where
    scan: "srt_scan (procs s) (current_time s) ?n i = Inr (sh, m)" by blast
  from srt_scan_spec [OF le in' scan]
  have "(sh = - 1 \<and> m = INT_MAX) \<or> (0 \<le> sh \<and> nat sh < i)" by blast
  then have "(remaining_time (procs s ! i) = m \<longrightarrow> 0 \<le> sh \<and> sh < num_processes ctx) \<and>
             (sh = - 1 \<longrightarrow> remaining_time (procs s ! i) < m)"
    using ri assms(3) by auto
  with scan have first: "\<exists>shortest min_remaining_time.
            srt_scan (procs s) (current_time s) ?n i = Inr (shortest, min_remaining_time) \<and>
            (eligible (procs s) (current_time s) i \<and>
             remaining_time (procs s ! i) = min_remaining_time \<longrightarrow>
               0 \<le> shortest \<and> shortest < num_processes ctx) \<and>
            (eligible (procs s) (current_time s) i \<and> shortest = - 1 \<longrightarrow>
               remaining_time (procs s ! i) < min_remaining_time)"
    by blast
  from srt_loop_bounded_total [OF b0] obtain s' where
    "srt_loop ?n (loop_start (reset_process_states ctx)) = Some (Inr s')" by blast
  then have "\<exists>r. shortest_remaining_time_first ctx = Some (Inr r)"
    by (simp add: shortest_remaining_time_first_def Let_def)
  with first show ?thesis by blast
qed

text \<open>The theorem at a read of the tie-break branch: at the first pass over \<open>srt_tie\<close> the
  selection loop reaches index 1 with \<open>(shortest, min_remaining_time) = (0, 3)\<close>, process 1 is
  eligible with remaining time 3, and the branch reads \<^verbatim>\<open>processes[0]\<close>.\<close>

theorem srt_tie_break_read_in_range_witness:
  "burst_bounded srt_tie \<and>
   srt_steps (nat (num_processes srt_tie)) 0 (loop_start (reset_process_states srt_tie))
     = Some (loop_start (reset_process_states srt_tie)) \<and>
   (1::nat) < nat (num_processes srt_tie) \<and>
   srt_scan (procs (loop_start (reset_process_states srt_tie)))
     (current_time (loop_start (reset_process_states srt_tie))) (nat (num_processes srt_tie)) 1
     = Inr (0, 3) \<and>
   eligible (procs (loop_start (reset_process_states srt_tie)))
     (current_time (loop_start (reset_process_states srt_tie))) 1 \<and>
   remaining_time (procs (loop_start (reset_process_states srt_tie)) ! 1) = 3 \<and>
   (0::int) < num_processes srt_tie \<and>
   (\<exists>r. shortest_remaining_time_first srt_tie = Some (Inr r))"
proof -
  let ?s = "loop_start (reset_process_states srt_tie)"
  have h1: "burst_bounded srt_tie" by code_simp
  have h2: "srt_steps (nat (num_processes srt_tie)) 0 ?s = Some ?s" by simp
  have h3: "(1::nat) < nat (num_processes srt_tie)" by code_simp
  have sc: "srt_scan (procs ?s) (current_time ?s) (nat (num_processes srt_tie)) 1 = Inr (0, 3)"
    by code_simp
  have el: "eligible (procs ?s) (current_time ?s) 1" by code_simp
  have r: "remaining_time (procs ?s ! 1) = 3" by code_simp
  from srt_tie_break_read_in_range [OF h1 h2 h3] obtain sh m where
    w: "srt_scan (procs ?s) (current_time ?s) (nat (num_processes srt_tie)) 1 = Inr (sh, m)"
      "eligible (procs ?s) (current_time ?s) 1 \<and> remaining_time (procs ?s ! 1) = m \<longrightarrow>
         0 \<le> sh \<and> sh < num_processes srt_tie"
    and run: "\<exists>r. shortest_remaining_time_first srt_tie = Some (Inr r)"
    by blast
  from w(1) sc have "sh = 0" "m = 3" by simp_all
  with w(2) el r have "(0::int) < num_processes srt_tie" by simp
  with h1 h2 h3 sc el r run show ?thesis by blast
qed

section \<open>Priority with round robin: proofs\<close>

subsection \<open>Collecting the ready group\<close>

lemma prio_collect_members:
  "prio_collect ps t k = (hp, ready) \<Longrightarrow>
   \<forall>i\<in>set ready. i < k \<and> eligible ps t i \<and> priority (ps ! i) = hp"
proof (induction k arbitrary: hp ready)
  case 0
  then show ?case by simp
next
  case (Suc k)
  obtain hp0 ready0 where c0: "prio_collect ps t k = (hp0, ready0)"
    by (cases "prio_collect ps t k")
  from Suc.IH [OF c0] have IH: "\<forall>i\<in>set ready0. i < k \<and> eligible ps t i \<and> priority (ps ! i) = hp0" .
  from Suc.prems c0 have "prio_consider ps t (hp0, ready0) k = (hp, ready)" by simp
  then show ?case
    using IH by (auto simp: prio_consider_def Let_def eligible_def less_Suc_eq split: if_splits)
qed

lemma prio_collect_empty:
  "snd (prio_collect ps t k) = [] \<Longrightarrow> fst (prio_collect ps t k) = INT_MAX"
  by (induction k) (auto simp: prio_consider_def Let_def split: prod.splits if_splits)

lemma prio_collect_nonempty:
  assumes "\<forall>i<k. priority (ps ! i) \<le> INT_MAX" "i < k" "eligible ps t i"
  shows "snd (prio_collect ps t k) \<noteq> []"
  using assms
proof (induction k)
  case 0
  then show ?case by simp
next
  case (Suc k)
  obtain hp0 ready0 where c0: "prio_collect ps t k = (hp0, ready0)"
    by (cases "prio_collect ps t k")
  show ?case
  proof (cases "i = k")
    case True
    have "ready0 = [] \<Longrightarrow> hp0 = INT_MAX"
      using prio_collect_empty [of ps t k] c0 by simp
    moreover have "priority (ps ! k) \<le> INT_MAX" using Suc.prems(1) by simp
    ultimately show ?thesis
      using Suc.prems(3) True c0
      by (auto simp: prio_consider_def Let_def eligible_def)
  next
    case False
    with Suc.prems have "i < k" by simp
    with Suc.IH Suc.prems have "ready0 \<noteq> []" using c0 by simp
    then show ?thesis
      using c0 by (auto simp: prio_consider_def Let_def)
  qed
qed

subsection \<open>The bubble sort keeps what holds of every cell it sorts\<close>

lemma bubble_inner_length [simp]: "length (bubble_inner swap xs j) = length xs"
  by (induction j) (auto simp: Let_def)

lemma bubble_outer_length [simp]: "length (bubble_outer swap xs m i) = length xs"
  by (induction i) auto

lemma bubble_sort_length [simp]: "length (bubble_sort swap xs m) = length xs"
  by (simp add: bubble_sort_def)

lemma bubble_inner_all:
  assumes "\<forall>i<m. P (xs ! i)" "j < m" "m \<le> length xs"
  shows "\<forall>i<m. P (bubble_inner swap xs j ! i)"
  using assms(2)
proof (induction j)
  case 0
  with assms(1) show ?case by simp
next
  case (Suc j)
  then have IH: "\<forall>i<m. P (bubble_inner swap xs j ! i)" by simp
  from Suc.prems assms(3) have "Suc j < length xs" "j < m" "Suc j < m" by simp_all
  with IH show ?case
    by (auto simp: Let_def nth_list_update)
qed

lemma bubble_outer_all:
  assumes "\<forall>i<m. P (xs ! i)" "m \<le> length xs" "k < m"
  shows "\<forall>i<m. P (bubble_outer swap xs m k ! i)"
  using assms(3)
proof (induction k)
  case 0
  with assms(1) show ?case by simp
next
  case (Suc k)
  then have IH: "\<forall>i<m. P (bubble_outer swap xs m k ! i)" by simp
  have "m - 1 - k < m" using Suc.prems by simp
  from bubble_inner_all [OF IH this] assms(2) show ?case by simp
qed

lemma bubble_sort_all:
  assumes "\<forall>i<m. P (xs ! i)" "m \<le> length xs"
  shows "\<forall>i<m. P (bubble_sort swap xs m ! i)"
proof (cases "m = 0")
  case True
  then show ?thesis by simp
next
  case False
  then have "m - 1 < m" by simp
  from bubble_outer_all [OF assms this] show ?thesis by (simp add: bubble_sort_def)
qed

lemma bubble_sort_set_all:
  assumes "\<forall>x\<in>set xs. P x"
  shows "\<forall>x\<in>set (bubble_sort swap xs (length xs)). P x"
proof -
  have "\<forall>i<length xs. P (xs ! i)" using assms by simp
  from bubble_sort_all [OF this order_refl, of swap]
  show ?thesis by (auto simp: in_set_conv_nth)
qed

subsection \<open>Runs of units\<close>

lemma units_trans: "units n s s' \<Longrightarrow> units n s' s'' \<Longrightarrow> units n s s''"
  by (induction rule: units.induct) (auto intro: units.intros)

lemma units_one:
  "i < n \<Longrightarrow> eligible (procs s) (current_time s) i \<Longrightarrow> units n s (run_unit s i)"
  by (auto intro: units.intros)

lemma units_good: "units n s s' \<Longrightarrow> good n s \<Longrightarrow> good n s'"
  by (induction rule: units.induct) (auto intro: good_run_unit)

lemma units_static:
  "units n s s' \<Longrightarrow> map static_fields (procs s') = map static_fields (procs s)"
  by (induction rule: units.induct) (auto simp: run_unit_static)

lemma units_work_left:
  "units n s s' \<Longrightarrow> n \<le> length (procs s) \<Longrightarrow> work_left n s' \<le> work_left n s"
proof (induction rule: units.induct)
  case (units_refl s)
  then show ?case by simp
next
  case (units_step i s s')
  then have "work_left n (run_unit s i) < work_left n s"
    by (auto intro: work_left_run_unit simp: eligible_def)
  with units_step show ?case by simp
qed

lemma units_time: "units n s s' \<Longrightarrow> good n s \<Longrightarrow> current_time s \<le> current_time s'"
proof (induction rule: units.induct)
  case (units_refl s)
  then show ?case by simp
next
  case (units_step i s s')
  from units_step.IH [OF good_run_unit [OF units_step.prems units_step.hyps(1,2)]]
    good_run_unit_time [OF units_step.prems units_step.hyps(1,2)]
  show ?case by simp
qed

lemma units_length: "units n s s' \<Longrightarrow> length (procs s') = length (procs s)"
  by (induction rule: units.induct) auto

lemma units_arrival:
  "units n s s' \<Longrightarrow> n \<le> length (procs s) \<Longrightarrow>
   arrival_time (procs s' ! j) = arrival_time (procs s ! j)"
  by (induction rule: units.induct) (auto simp: run_unit_arrival)

lemma units_completed: "units n s s' \<Longrightarrow> n \<le> length (procs s) \<Longrightarrow> completed s \<le> completed s'"
proof (induction rule: units.induct)
  case (units_refl s)
  then show ?case by simp
next
  case (units_step i s s')
  then have "completed s \<le> completed (run_unit s i)"
    by (simp add: run_unit_completed)
  with units_step show ?case by simp
qed

subsection \<open>Slices and rotations are runs of units\<close>

lemma prio_slice_units:
  assumes "idx < n" "n \<le> length (procs s)"
    and "arrival_time (procs s ! idx) \<le> current_time s" "0 < remaining_time (procs s ! idx)"
    and "good n s"
  shows "units n (run_unit s idx) (fst (prio_slice n hp idx (Suc k) s))"
  using assms
proof (induction k arbitrary: s)
  case 0
  then show ?case by (auto simp: Let_def intro: units.intros)
next
  case (Suc k)
  let ?s1 = "run_unit s idx"
  have il: "idx < length (procs s)" using Suc.prems by simp
  show ?case
  proof (cases "higher_arrival (procs ?s1) (current_time ?s1) hp n \<or>
                remaining_time (procs ?s1 ! idx) = 0")
    case True
    then show ?thesis by (auto simp: Let_def intro: units.intros)
  next
    case False
    then have eq: "prio_slice n hp idx (Suc (Suc k)) s = prio_slice n hp idx (Suc k) ?s1"
      by (simp add: Let_def)
    have r1: "0 < remaining_time (procs ?s1 ! idx)"
      using False Suc.prems(4) by (simp add: run_unit_remaining [OF il])
    have el: "eligible (procs s) (current_time s) idx"
      using Suc.prems(3,4) by (simp add: eligible_def)
    have g1: "good n ?s1" using good_run_unit [OF Suc.prems(5,1) el] .
    have a1: "arrival_time (procs ?s1 ! idx) \<le> current_time ?s1"
      using Suc.prems(3) good_run_unit_time [OF Suc.prems(5,1) el]
      by (simp add: run_unit_arrival [OF il])
    have l1: "n \<le> length (procs ?s1)" using Suc.prems(2) by simp
    from Suc.IH [OF Suc.prems(1) l1 a1 r1 g1]
    have "units n (run_unit ?s1 idx) (fst (prio_slice n hp idx (Suc k) ?s1))" .
    moreover have "eligible (procs ?s1) (current_time ?s1) idx"
      using r1 a1 by (simp add: eligible_def)
    ultimately have "units n ?s1 (fst (prio_slice n hp idx (Suc k) ?s1))"
      using Suc.prems(1) by (auto intro: units.intros)
    with eq show ?thesis by simp
  qed
qed

lemma prio_slice_units':
  assumes "idx < n" "n \<le> length (procs s)"
    and "arrival_time (procs s ! idx) \<le> current_time s" "0 < remaining_time (procs s ! idx)"
    and "good n s"
  shows "units n s (fst (prio_slice n hp idx k s))"
proof (cases k)
  case 0
  then show ?thesis by (simp add: units.intros)
next
  case (Suc k')
  have "eligible (procs s) (current_time s) idx" using assms by (simp add: eligible_def)
  with prio_slice_units [OF assms, of hp k'] assms(1) Suc show ?thesis
    by (auto intro: units.intros)
qed

lemma prio_rotation_units:
  assumes "n \<le> length (procs s)"
    and "\<forall>idx\<in>set rs. idx < n \<and> arrival_time (procs s ! idx) \<le> current_time s"
    and "good n s"
  shows "units n s (prio_rotation n hp tq rs s)"
  using assms
proof (induction rs arbitrary: s)
  case Nil
  then show ?case by (simp add: units.intros)
next
  case (Cons idx rest)
  have idx: "idx < n" "arrival_time (procs s ! idx) \<le> current_time s"
    and rest: "\<forall>i\<in>set rest. i < n \<and> arrival_time (procs s ! i) \<le> current_time s"
    using Cons.prems(2) by simp_all
  show ?case
  proof (cases "completed s < n")
    case False
    then show ?thesis by (simp add: units.intros)
  next
    case c: True
    show ?thesis
    proof (cases "remaining_time (procs s ! idx) \<le> 0")
      case True
      with c Cons.IH [OF Cons.prems(1) rest Cons.prems(3)] show ?thesis by simp
    next
      case False
      then have r: "0 < remaining_time (procs s ! idx)" by simp
      define k where "k = nat (if remaining_time (procs s ! idx) < tq
                               then remaining_time (procs s ! idx) else tq)"
      obtain s1 h where sl: "prio_slice n hp idx k s = (s1, h)"
        by (cases "prio_slice n hp idx k s")
      have u1: "units n s s1"
        using prio_slice_units' [OF idx(1) Cons.prems(1) idx(2) r Cons.prems(3), of hp k] sl by simp
      have rot: "prio_rotation n hp tq (idx # rest) s =
                   (if h then s1 else prio_rotation n hp tq rest s1)"
        using c False sl by (simp add: k_def Let_def)
      show ?thesis
      proof (cases h)
        case True
        with rot u1 show ?thesis by simp
      next
        case False
        have l1: "n \<le> length (procs s1)"
          using units_length [OF u1] Cons.prems(1) by simp
        have "\<forall>i\<in>set rest. i < n \<and> arrival_time (procs s1 ! i) \<le> current_time s1"
          using rest units_arrival [OF u1 Cons.prems(1)] units_time [OF u1 Cons.prems(3)] by auto
        from Cons.IH [OF l1 this units_good [OF u1 Cons.prems(3)]] have "units n s1 (prio_rotation n hp tq rest s1)" .
        with u1 rot False show ?thesis by (auto intro: units_trans)
      qed
    qed
  qed
qed

lemma prio_rotation_progress:
  assumes "n \<le> length (procs s)"
    and "\<forall>i\<in>set (idx # rest). i < n \<and> arrival_time (procs s ! i) \<le> current_time s"
    and "completed s < n" "0 < remaining_time (procs s ! idx)" "0 < tq"
    and "good n s"
  shows "work_left n (prio_rotation n hp tq (idx # rest) s) < work_left n s"
proof -
  have idx: "idx < n" "arrival_time (procs s ! idx) \<le> current_time s"
    and rest: "\<forall>i\<in>set rest. i < n \<and> arrival_time (procs s ! i) \<le> current_time s"
    using assms(2) by simp_all
  define k where "k = nat (if remaining_time (procs s ! idx) < tq
                           then remaining_time (procs s ! idx) else tq)"
  have "0 < k" using assms(4,5) by (simp add: k_def)
  then obtain k' where k': "k = Suc k'" by (cases k) auto
  obtain s1 h where sl: "prio_slice n hp idx k s = (s1, h)"
    by (cases "prio_slice n hp idx k s")
  let ?s0 = "run_unit s idx"
  have u0: "units n ?s0 s1"
    using prio_slice_units [OF idx(1) assms(1) idx(2) assms(4) assms(6), of hp k'] sl k' by simp
  have el: "eligible (procs s) (current_time s) idx"
    using idx(2) assms(4) by (simp add: eligible_def)
  have u1: "units n s s1" using u0 el idx(1) by (auto intro: units.intros)
  have l0: "n \<le> length (procs ?s0)" using assms(1) by simp
  have w0: "work_left n ?s0 < work_left n s"
    using work_left_run_unit [OF idx(1) assms(1) assms(4)] .
  have w1: "work_left n s1 \<le> work_left n ?s0" using units_work_left [OF u0 l0] .
  have rot: "prio_rotation n hp tq (idx # rest) s =
               (if h then s1 else prio_rotation n hp tq rest s1)"
    using assms(3,4) sl by (simp add: k_def Let_def)
  show ?thesis
  proof (cases h)
    case True
    with rot w0 w1 show ?thesis by simp
  next
    case False
    have l1: "n \<le> length (procs s1)"
      using units_length [OF u1] assms(1) by simp
    have "\<forall>i\<in>set rest. i < n \<and> arrival_time (procs s1 ! i) \<le> current_time s1"
      using rest units_arrival [OF u1 assms(1)] units_time [OF u1 assms(6)] by auto
    from prio_rotation_units [OF l1 this units_good [OF u1 assms(6)], of hp tq]
    have "work_left n (prio_rotation n hp tq rest s1) \<le> work_left n s1"
      using units_work_left l1 by blast
    with rot False w0 w1 show ?thesis by simp
  qed
qed

subsection \<open>The static fields\<close>

lemma prio_slice_static:
  "map static_fields (procs (fst (prio_slice n hp idx k s))) = map static_fields (procs s)"
  by (induction k arbitrary: s) (auto simp: Let_def run_unit_static)

lemma prio_rotation_static:
  "map static_fields (procs (prio_rotation n hp tq rs s)) = map static_fields (procs s)"
proof (induction rs arbitrary: s)
  case Nil
  then show ?case by simp
next
  case (Cons idx rest)
  define k where "k = nat (if remaining_time (procs s ! idx) < tq
                           then remaining_time (procs s ! idx) else tq)"
  obtain s1 h where sl: "prio_slice n hp idx k s = (s1, h)"
    by (cases "prio_slice n hp idx k s")
  have "map static_fields (procs s1) = map static_fields (procs s)"
    using prio_slice_static [of n hp idx k s] sl by simp
  with Cons.IH [of s] Cons.IH [of s1] sl show ?case
    by (simp add: k_def [symmetric] Let_def)
qed

lemma prio_iteration_static:
  "prio_iteration n tq s = Next s' \<Longrightarrow> map static_fields (procs s') = map static_fields (procs s)"
  by (auto simp: prio_iteration_def Let_def prio_rotation_static split: prod.splits if_splits)

lemmas prio_loop_induct = prio_loop.raw_induct [rotated, consumes 1, case_names step]

lemma prio_loop_static:
  "prio_loop n tq s = Some s' \<Longrightarrow> map static_fields (procs s') = map static_fields (procs s)"
proof (induction rule: prio_loop_induct)
  case 1: (step f n tq s s')
  show ?case
  proof (cases "completed s < n")
    case False
    with 1(2) show ?thesis by simp
  next
    case True
    show ?thesis
    proof (cases "prio_iteration n tq s")
      case Break
      with 1(2) True show ?thesis by simp
    next
      case (Next s1)
      with 1(2) True have "f n tq s1 = Some s'" by simp
      from 1(1) [OF this] prio_iteration_static [OF Next] show ?thesis by simp
    qed
  qed
qed

subsection \<open>The body and the main loop of the priority engine\<close>

lemma static_priority:
  assumes "map static_fields ps' = map static_fields ps" "i < length ps"
  shows "priority (ps' ! i) = priority (ps ! i)"
proof -
  have "length ps' = length ps" using assms(1) by (rule map_eq_imp_length_eq)
  with assms have "static_fields (ps' ! i) = static_fields (ps ! i)"
    by (metis nth_map)
  then show ?thesis by (simp add: static_fields_def)
qed

lemma prio_iteration_step:
  assumes g: "good n s" and pr: "\<forall>i<n. priority (procs s ! i) \<le> INT_MAX"
    and tq: "0 < tq" and c: "completed s < n"
  shows "\<exists>s'. prio_iteration n tq s = Next s' \<and> good n s' \<and>
              (\<forall>i<n. priority (procs s' ! i) \<le> INT_MAX) \<and> work_left n s' < work_left n s"
proof -
  have len: "n \<le> length (procs s)" using g by (simp add: good_def live_def)
  obtain hp ready where col: "prio_collect (procs s) (current_time s) n = (hp, ready)"
    by (cases "prio_collect (procs s) (current_time s) n")
  show ?thesis
  proof (cases "ready = []")
    case True
    have none: "\<not> eligible (procs s) (current_time s) i" if "i < n" for i
      using prio_collect_nonempty [OF pr that, of "current_time s"] col True by auto
    from live_unfinished [OF good_live [OF g] c] obtain i where i: "i < n" "0 < remaining_time (procs s ! i)"
      by blast
    with none [of i] have fut: "current_time s < arrival_time (procs s ! i)"
      by (simp add: eligible_def)
    have "arrival_time (procs s ! i) < INT_MAX"
      using g i(1) by (auto simp: good_def live_def)
    with next_arrival_scan_le [OF i(1) i(2) fut]
    have ne: "next_arrival_scan (procs s) (current_time s) n \<noteq> INT_MAX" by simp
    let ?a = "next_arrival_scan (procs s) (current_time s) n"
    from next_arrival_scan_cases [of "procs s" "current_time s" n] ne
    obtain j where j: "j < n" "0 < remaining_time (procs s ! j)"
      "current_time s < arrival_time (procs s ! j)" "?a = arrival_time (procs s ! j)"
      by auto
    have it: "prio_iteration n tq s = Next (s\<lparr>current_time := ?a\<rparr>)"
      using col True ne by (simp add: prio_iteration_def Let_def)
    have "good n (s\<lparr>current_time := ?a\<rparr>)"
      using good_jump [OF g _ j(1) j(4)] j(3,4) by simp
    moreover have "work_left n (s\<lparr>current_time := ?a\<rparr>) < work_left n s"
      using work_left_jump [OF j] .
    ultimately show ?thesis using it pr by simp
  next
    case False
    let ?rs = "bubble_sort (pid_swap (procs s)) ready (length ready)"
    have it: "prio_iteration n tq s = Next (prio_rotation n hp tq ?rs s)"
      using col False by (simp add: prio_iteration_def)
    have "\<forall>i\<in>set ready. i < n \<and> eligible (procs s) (current_time s) i"
      using prio_collect_members [OF col] by blast
    from bubble_sort_set_all [OF this]
    have mem: "\<forall>i\<in>set ?rs. i < n \<and> eligible (procs s) (current_time s) i" .
    have "length ?rs = length ready" by simp
    with False obtain idx rest where rs: "?rs = idx # rest"
      by (cases ?rs) auto
    have mem': "\<forall>i\<in>set (idx # rest). i < n \<and> arrival_time (procs s ! i) \<le> current_time s"
      and r0: "0 < remaining_time (procs s ! idx)"
      using mem unfolding rs by (auto simp: eligible_def)
    have w: "work_left n (prio_rotation n hp tq ?rs s) < work_left n s"
      unfolding rs using prio_rotation_progress [OF len mem' c r0 tq g] .
    have u: "units n s (prio_rotation n hp tq ?rs s)"
      unfolding rs using prio_rotation_units [OF len mem' g] .
    have g': "good n (prio_rotation n hp tq ?rs s)" using units_good [OF u g] .
    have "\<forall>i<n. priority (procs (prio_rotation n hp tq ?rs s) ! i) \<le> INT_MAX"
      using pr len static_priority [OF units_static [OF u]] by simp
    with it g' w show ?thesis by simp
  qed
qed

lemma prio_loop_good_total:
  assumes "good n s" "\<forall>i<n. priority (procs s ! i) \<le> INT_MAX" "0 < tq"
  shows "\<exists>s'. prio_loop n tq s = Some s' \<and> good n s' \<and> \<not> completed s' < n"
  using assms(1,2)
proof (induction "work_left n s" arbitrary: s rule: less_induct)
  case less
  show ?case
  proof (cases "completed s < n")
    case False
    with less.prems show ?thesis
      by (subst prio_loop.simps) simp
  next
    case True
    from prio_iteration_step [OF less.prems assms(3) True] obtain s1 where
      s1: "prio_iteration n tq s = Next s1" "good n s1"
        "\<forall>i<n. priority (procs s1 ! i) \<le> INT_MAX" "work_left n s1 < work_left n s"
      by blast
    from less.hyps [OF s1(4) s1(2) s1(3)] obtain s' where
      "prio_loop n tq s1 = Some s'" "good n s'" "\<not> completed s' < n" by blast
    with s1(1) True show ?thesis
      by (subst prio_loop.simps) simp
  qed
qed

lemma valid_priorities_start:
  assumes "nat (num_processes ctx) \<le> length (processes ctx)" "valid_priorities ctx"
  shows "\<forall>i<nat (num_processes ctx).
           priority (procs (loop_start (reset_process_states ctx)) ! i) \<le> INT_MAX"
  using assms by (auto simp: valid_priorities_def list_all_length loop_start_nth)

lemma prio_run_good:
  assumes "valid_input ctx" "valid_priorities ctx" "clock_fits ctx"
  shows "\<exists>s. prio_loop (nat (num_processes ctx))
                (if time_quantum ctx \<le> 0 then 2 else time_quantum ctx)
                (loop_start (reset_process_states ctx)) = Some s \<and>
             good (nat (num_processes ctx)) s \<and> \<not> completed s < nat (num_processes ctx) \<and>
             priority_preemptive_rr ctx =
               Some (display_results (reset_process_states ctx\<lparr>processes := procs s\<rparr>)
                       ''PRIORITY_PREEMPTIVE_WITH_RR'')"
proof -
  let ?n = "nat (num_processes ctx)"
  let ?tq = "if time_quantum ctx \<le> 0 then 2 else time_quantum ctx"
  have len: "?n \<le> length (processes ctx)" using assms(1) by (simp add: valid_input_def)
  have tq: "0 < ?tq" by simp
  from prio_loop_good_total [OF loop_start_good [OF assms(1,3)]
      valid_priorities_start [OF len assms(2)] tq]
  obtain s where s: "prio_loop ?n ?tq (loop_start (reset_process_states ctx)) = Some s"
    "good ?n s" "\<not> completed s < ?n" by blast
  then have "priority_preemptive_rr ctx =
               Some (display_results (reset_process_states ctx\<lparr>processes := procs s\<rparr>)
                       ''PRIORITY_PREEMPTIVE_WITH_RR'')"
    by (simp add: priority_preemptive_rr_def Let_def)
  with s show ?thesis by blast
qed

lemma srt_run_good:
  assumes "valid_input ctx" "burst_bounded ctx" "clock_fits ctx"
  shows "\<exists>s. srt_loop (nat (num_processes ctx)) (loop_start (reset_process_states ctx)) = Some (Inr s) \<and>
             good (nat (num_processes ctx)) s \<and> \<not> completed s < nat (num_processes ctx) \<and>
             shortest_remaining_time_first ctx =
               Some (Inr (display_results (reset_process_states ctx\<lparr>processes := procs s\<rparr>)
                            ''Shortest-Remaining_Time-First (SRTF)''))"
proof -
  from srt_loop_good_total [OF loop_start_good [OF assms(1,3)] burst_bounded_start [OF assms(2)]]
  obtain s where
    s: "srt_loop (nat (num_processes ctx)) (loop_start (reset_process_states ctx)) = Some (Inr s)"
      "good (nat (num_processes ctx)) s" "\<not> completed s < nat (num_processes ctx)"
    by blast
  then have "shortest_remaining_time_first ctx =
               Some (Inr (display_results (reset_process_states ctx\<lparr>processes := procs s\<rparr>)
                            ''Shortest-Remaining_Time-First (SRTF)''))"
    by (simp add: shortest_remaining_time_first_def Let_def)
  with s show ?thesis by blast
qed

section \<open>The frame of the unit-stepping engines\<close>

text \<open>
  Claim C9. When \<^verbatim>\<open>shortest_remaining_time_first\<close> or \<^verbatim>\<open>priority_preemptive_rr\<close> returns,
  the process array has the length it had and, cell by cell, the pid, arrival time, burst time
  and priority it had: no cell has moved and only \<open>remaining_time\<close> and \<open>completion_time\<close> can
  differ. The count and the quantum are as they were.
\<close>

theorem unit_engines_frame:
  "(shortest_remaining_time_first ctx = Some (Inr (ctx', out)) \<longrightarrow>
      map static_fields (processes ctx') = map static_fields (processes ctx) \<and>
      num_processes ctx' = num_processes ctx \<and> time_quantum ctx' = time_quantum ctx) \<and>
   (priority_preemptive_rr ctx = Some (ctx'', out') \<longrightarrow>
      map static_fields (processes ctx'') = map static_fields (processes ctx) \<and>
      num_processes ctx'' = num_processes ctx \<and> time_quantum ctx'' = time_quantum ctx)"
proof (intro conjI impI)
  assume a: "shortest_remaining_time_first ctx = Some (Inr (ctx', out))"
  then obtain s where s: "srt_loop (nat (num_processes ctx)) (loop_start (reset_process_states ctx)) = Some (Inr s)"
    and c: "ctx' = reset_process_states ctx\<lparr>processes := procs s\<rparr>"
    by (auto simp: shortest_remaining_time_first_def Let_def display_results_def
        split: option.splits sum.splits)
  from srt_loop_static [OF s] loop_start_static [of ctx]
  show "map static_fields (processes ctx') = map static_fields (processes ctx)"
    by (simp add: c)
  show "num_processes ctx' = num_processes ctx" by (simp add: c)
  show "time_quantum ctx' = time_quantum ctx" by (simp add: c)
next
  assume a: "priority_preemptive_rr ctx = Some (ctx'', out')"
  then obtain s where s: "prio_loop (nat (num_processes ctx))
      (if time_quantum ctx \<le> 0 then 2 else time_quantum ctx)
      (loop_start (reset_process_states ctx)) = Some s"
    and c: "ctx'' = reset_process_states ctx\<lparr>processes := procs s\<rparr>"
    by (auto simp: priority_preemptive_rr_def Let_def display_results_def
        split: option.splits if_splits)
  from prio_loop_static [OF s] loop_start_static [of ctx]
  show "map static_fields (processes ctx'') = map static_fields (processes ctx)"
    by (simp add: c)
  show "num_processes ctx'' = num_processes ctx" by (simp add: c)
  show "time_quantum ctx'' = time_quantum ctx" by (simp add: c)
qed

theorem unit_engines_frame_witness:
  "shortest_remaining_time_first srt_example =
     Some (Inr (srt_example\<lparr>processes :=
                  [(mk_process 1 0 8 0)\<lparr>completion_time := 12\<rparr>,
                   (mk_process 2 1 4 0)\<lparr>completion_time := 5\<rparr>]\<rparr>,
                [''Shortest-Remaining_Time-First (SRTF)''])) \<and>
   priority_preemptive_rr srt_example =
     Some (srt_example\<lparr>processes :=
                  [(mk_process 1 0 8 0)\<lparr>completion_time := 12\<rparr>,
                   (mk_process 2 1 4 0)\<lparr>completion_time := 10\<rparr>]\<rparr>,
           [''PRIORITY_PREEMPTIVE_WITH_RR'']) \<and>
   map static_fields (processes (srt_example\<lparr>processes :=
                  [(mk_process 1 0 8 0)\<lparr>completion_time := 12\<rparr>,
                   (mk_process 2 1 4 0)\<lparr>completion_time := 5\<rparr>]\<rparr>))
     = map static_fields (processes srt_example) \<and>
   map static_fields (processes (srt_example\<lparr>processes :=
                  [(mk_process 1 0 8 0)\<lparr>completion_time := 12\<rparr>,
                   (mk_process 2 1 4 0)\<lparr>completion_time := 10\<rparr>]\<rparr>))
     = map static_fields (processes srt_example)"
proof -
  let ?c1 = "srt_example\<lparr>processes :=
                  [(mk_process 1 0 8 0)\<lparr>completion_time := 12\<rparr>,
                   (mk_process 2 1 4 0)\<lparr>completion_time := 5\<rparr>]\<rparr>"
  let ?c2 = "srt_example\<lparr>processes :=
                  [(mk_process 1 0 8 0)\<lparr>completion_time := 12\<rparr>,
                   (mk_process 2 1 4 0)\<lparr>completion_time := 10\<rparr>]\<rparr>"
  have h1: "shortest_remaining_time_first srt_example =
     Some (Inr (?c1, [''Shortest-Remaining_Time-First (SRTF)'']))"
    by code_simp
  have h2: "priority_preemptive_rr srt_example = Some (?c2, [''PRIORITY_PREEMPTIVE_WITH_RR''])"
    by code_simp
  from unit_engines_frame [of srt_example ?c1 "[''Shortest-Remaining_Time-First (SRTF)'']"
      ?c2 "[''PRIORITY_PREEMPTIVE_WITH_RR'']"] h1 h2
  show ?thesis by blast
qed

section \<open>The slice of the priority engine\<close>

lemma higher_arrival_iff:
  "higher_arrival ps t hp k \<longleftrightarrow>
   (\<exists>j<k. arrival_time (ps ! j) = t \<and> remaining_time (ps ! j) > 0 \<and> priority (ps ! j) < hp)"
  by (induction k) (auto simp: less_Suc_eq)

lemma run_units_shift: "run_units (run_unit s idx) idx u = run_units s idx (Suc u)"
  by (induction u) simp_all

lemma run_units_time:
  "0 < u \<Longrightarrow> current_time (run_units s idx u) = wrap_int (current_time s + int u)"
proof (induction u)
  case 0
  then show ?case by simp
next
  case (Suc u)
  show ?case
  proof (cases "u = 0")
    case True
    then show ?thesis by simp
  next
    case False
    with Suc.IH have "current_time (run_units s idx u) = wrap_int (current_time s + int u)" by simp
    then have "current_time (run_units s idx (Suc u)) = wrap_int (current_time s + int u + 1)"
      by (simp add: wrap_int_add)
    moreover have "current_time s + int u + 1 = current_time s + int (Suc u)" by simp
    ultimately show ?thesis by (simp only:)
  qed
qed

lemma run_units_length [simp]: "length (procs (run_units s idx u)) = length (procs s)"
  by (induction u) simp_all

lemma run_units_remaining:
  "idx < length (procs s) \<Longrightarrow>
   remaining_time (procs (run_units s idx u) ! idx) = remaining_time (procs s ! idx) - int u"
  by (induction u) (simp_all add: run_unit_remaining)

lemma higher_seen_arrival:
  "higher_seen n hp s idx u =
   higher_arrival (procs (run_units s idx u)) (current_time (run_units s idx u)) hp n"
  by (simp add: higher_seen_def)

lemma higher_seen_iff:
  "0 < u \<Longrightarrow> higher_seen n hp s idx u \<longleftrightarrow>
   (\<exists>j<n. arrival_time (procs (run_units s idx u) ! j) = wrap_int (current_time s + int u) \<and>
          remaining_time (procs (run_units s idx u) ! j) > 0 \<and>
          priority (procs (run_units s idx u) ! j) < hp)"
  by (simp add: higher_seen_def higher_arrival_iff run_units_time)

lemma higher_seen_shift:
  "higher_seen n hp (run_unit s idx) idx u = higher_seen n hp s idx (Suc u)"
  unfolding higher_seen_def run_units_shift ..

text \<open>A slice stops at the first unit after which a higher-priority arrival is seen or the
  process is finished, and otherwise runs its \<open>k\<close> units.\<close>

lemma prio_slice_stops:
  assumes "1 \<le> u" "u \<le> k"
    and "\<forall>v. 1 \<le> v \<and> v < u \<longrightarrow>
           \<not> higher_seen n hp s idx v \<and> remaining_time (procs (run_units s idx v) ! idx) \<noteq> 0"
    and "higher_seen n hp s idx u \<or> remaining_time (procs (run_units s idx u) ! idx) = 0"
  shows "prio_slice n hp idx k s = (run_units s idx u, higher_seen n hp s idx u)"
  using assms
proof (induction k arbitrary: s u)
  case 0
  then show ?case by simp
next
  case (Suc k)
  let ?s1 = "run_unit s idx"
  show ?case
  proof (cases "u = 1")
    case True
    from Suc.prems(4) show ?thesis
      unfolding True
      by (auto simp: Let_def higher_seen_arrival)
  next
    case False
    with Suc.prems(1) obtain u' where u': "u = Suc u'" "1 \<le> u'"
      by (cases u) auto
    have "\<not> higher_seen n hp s idx 1 \<and> remaining_time (procs (run_units s idx 1) ! idx) \<noteq> 0"
      using Suc.prems(3) [rule_format, of 1] u' by simp
    then have eq: "prio_slice n hp idx (Suc k) s = prio_slice n hp idx k ?s1"
      by (simp add: Let_def higher_seen_arrival)
    have p2: "u' \<le> k" using Suc.prems(2) u' by simp
    have p3: "\<forall>v. 1 \<le> v \<and> v < u' \<longrightarrow>
           \<not> higher_seen n hp ?s1 idx v \<and> remaining_time (procs (run_units ?s1 idx v) ! idx) \<noteq> 0"
      using Suc.prems(3) unfolding u' higher_seen_shift run_units_shift by auto
    have p4: "higher_seen n hp ?s1 idx u' \<or> remaining_time (procs (run_units ?s1 idx u') ! idx) = 0"
      using Suc.prems(4) unfolding u' higher_seen_shift run_units_shift .
    from Suc.IH [OF u'(2) p2 p3 p4] eq show ?thesis
      unfolding u' higher_seen_shift run_units_shift by simp
  qed
qed

lemma prio_slice_expires:
  assumes "\<forall>v. 1 \<le> v \<and> v \<le> k \<longrightarrow>
           \<not> higher_seen n hp s idx v \<and> remaining_time (procs (run_units s idx v) ! idx) \<noteq> 0"
  shows "prio_slice n hp idx k s = (run_units s idx k, False)"
  using assms
proof (induction k arbitrary: s)
  case 0
  then show ?case by simp
next
  case (Suc k)
  let ?s1 = "run_unit s idx"
  have "\<not> higher_seen n hp s idx 1 \<and> remaining_time (procs (run_units s idx 1) ! idx) \<noteq> 0"
    using Suc.prems [rule_format, of 1] by simp
  then have eq: "prio_slice n hp idx (Suc k) s = prio_slice n hp idx k ?s1"
    by (simp add: Let_def higher_seen_arrival)
  have "\<forall>v. 1 \<le> v \<and> v \<le> k \<longrightarrow>
           \<not> higher_seen n hp ?s1 idx v \<and> remaining_time (procs (run_units ?s1 idx v) ! idx) \<noteq> 0"
    using Suc.prems unfolding higher_seen_shift run_units_shift by auto
  from Suc.IH [OF this] eq show ?case
    unfolding run_units_shift by simp
qed

lemma run_units_completion:
  assumes "idx < length (procs s)" "int u = remaining_time (procs s ! idx)" "1 \<le> u"
  shows "completion_time (procs (run_units s idx u) ! idx) = wrap_int (current_time s + int u) \<and>
         completed (run_units s idx u) = completed s + 1"
  using assms
proof (induction u arbitrary: s)
  case 0
  then show ?case by simp
next
  case (Suc u)
  let ?s1 = "run_unit s idx"
  have il: "idx < length (procs ?s1)" using Suc.prems(1) by simp
  show ?case
  proof (cases "u = 0")
    case True
    with Suc.prems show ?thesis
      by (simp add: run_unit_self run_unit_completed)
  next
    case False
    have r1: "int u = remaining_time (procs ?s1 ! idx)"
      using Suc.prems by (simp add: run_unit_remaining)
    have "remaining_time (procs s ! idx) \<noteq> 1" using Suc.prems(2) False by simp
    then have c1: "completed ?s1 = completed s"
      using Suc.prems(1) by (simp add: run_unit_completed)
    have w: "wrap_int (wrap_int (current_time s + 1) + int u) = wrap_int (current_time s + int (Suc u))"
    proof -
      have "wrap_int (wrap_int (current_time s + 1) + int u) = wrap_int (current_time s + 1 + int u)"
        by (rule wrap_int_add)
      moreover have "current_time s + 1 + int u = current_time s + int (Suc u)" by simp
      ultimately show ?thesis by (simp only:)
    qed
    from Suc.IH [OF il r1] False c1 have
      "completion_time (procs (run_units ?s1 idx u) ! idx) = wrap_int (wrap_int (current_time s + 1) + int u)"
      "completed (run_units ?s1 idx u) = completed s + 1"
      by simp_all
    then show ?thesis
      unfolding run_units_shift w by simp
  qed
qed

lemma prio_rotation_head:
  assumes "completed s < n" "0 < remaining_time (procs s ! idx)"
    and "prio_slice n hp idx
           (nat (if remaining_time (procs s ! idx) < tq then remaining_time (procs s ! idx) else tq)) s
         = (s1, h)"
  shows "prio_rotation n hp tq (idx # rest) s = (if h then s1 else prio_rotation n hp tq rest s1)"
  using assms by (simp add: Let_def)

text \<open>
  Claim C1, as amended. Take a member \<open>idx\<close> of the group at the start of its slice in state
  \<open>s\<close> (the rotation loop is entered: \<open>completed < n\<close> and the remaining time is above 0), and
  let \<open>u\<close> be a unit of the slice, \<open>1 \<le> u \<le> min(remaining_time, time_quantum)\<close>, such that no
  higher-priority arrival was seen after the units before it. Then the slice reaches unit \<open>u\<close>
  one unit at a time: after it the clock is \<open>current_time + u\<close>, in the arithmetic of
  \<^verbatim>\<open>int\<close>, and the remaining time is down by \<open>u\<close>. The test made after the unit is true exactly when some process with arrival time equal
  to the new clock value has remaining time above 0 and priority strictly below the group's; if it is
  true, the rotation ends in the state after unit \<open>u\<close> (the rest of the quantum and of the rotation
  is dropped), and that state is the one the outer loop goes round with. If the remaining time
  reaches 0 at unit \<open>u\<close>, the completion time is the clock at that instant and \<open>completed\<close> is one
  more, whether or not the test is true. If the slice is over at unit \<open>u\<close> (the process is
  finished or the quantum is used up) and the test is false, the rotation goes on with the next
  member. The amendment: a finished member is followed by the next member only if no
  higher-priority arrival is seen at that same instant.
\<close>

theorem prio_slice_preemption_and_completion:
  assumes "idx < length (procs s)" "completed s < n" "0 < remaining_time (procs s ! idx)"
    and "1 \<le> u"
    and "int u \<le> (if remaining_time (procs s ! idx) < tq then remaining_time (procs s ! idx) else tq)"
    and "\<forall>v. 1 \<le> v \<and> v < u \<longrightarrow> \<not> higher_seen n hp s idx v"
  shows "current_time (run_units s idx u) = wrap_int (current_time s + int u) \<and>
         remaining_time (procs (run_units s idx u) ! idx) = remaining_time (procs s ! idx) - int u \<and>
         (higher_seen n hp s idx u \<longleftrightarrow>
            (\<exists>j<n. arrival_time (procs (run_units s idx u) ! j) = wrap_int (current_time s + int u) \<and>
                   remaining_time (procs (run_units s idx u) ! j) > 0 \<and>
                   priority (procs (run_units s idx u) ! j) < hp)) \<and>
         (higher_seen n hp s idx u \<longrightarrow>
            prio_rotation n hp tq (idx # rest) s = run_units s idx u) \<and>
         (int u = remaining_time (procs s ! idx) \<longrightarrow>
            completion_time (procs (run_units s idx u) ! idx) = wrap_int (current_time s + int u) \<and>
            completed (run_units s idx u) = completed s + 1) \<and>
         (int u = (if remaining_time (procs s ! idx) < tq then remaining_time (procs s ! idx) else tq) \<and>
          \<not> higher_seen n hp s idx u \<longrightarrow>
            prio_rotation n hp tq (idx # rest) s = prio_rotation n hp tq rest (run_units s idx u)) \<and>
         (\<forall>s0 ready. prio_collect (procs s0) (current_time s0) n = (hp, ready) \<and> ready \<noteq> [] \<longrightarrow>
            prio_iteration n tq s0 =
              Next (prio_rotation n hp tq
                      (bubble_sort (pid_swap (procs s0)) ready (length ready)) s0))"
proof -
  let ?r = "remaining_time (procs s ! idx)"
  let ?q = "if ?r < tq then ?r else tq"
  have rem: "\<And>v. remaining_time (procs (run_units s idx v) ! idx) = ?r - int v"
    using run_units_remaining [OF assms(1)] by simp
  have uq: "u \<le> nat ?q" using assms(5) by linarith
  have ur: "int u \<le> ?r" using assms(5) by (simp split: if_splits)
  have before: "\<forall>v. 1 \<le> v \<and> v < u \<longrightarrow>
      \<not> higher_seen n hp s idx v \<and> remaining_time (procs (run_units s idx v) ! idx) \<noteq> 0"
    using assms(6) ur by (auto simp: rem)
  have u0: "0 < u" using assms(4) by simp
  have c1: "current_time (run_units s idx u) = wrap_int (current_time s + int u)"
    using run_units_time [OF u0] .
  have c2: "remaining_time (procs (run_units s idx u) ! idx) = ?r - int u" by (rule rem)
  note c3 = higher_seen_iff [OF u0, of n hp s idx]
  have c4: "prio_rotation n hp tq (idx # rest) s = run_units s idx u"
    if h: "higher_seen n hp s idx u"
  proof -
    from prio_slice_stops [OF assms(4) uq before] h
    have "prio_slice n hp idx (nat ?q) s = (run_units s idx u, True)" by simp
    from prio_rotation_head [OF assms(2,3) this] show ?thesis by simp
  qed
  have c5: "completion_time (procs (run_units s idx u) ! idx) = wrap_int (current_time s + int u) \<and>
            completed (run_units s idx u) = completed s + 1"
    if "int u = ?r"
    using run_units_completion [OF assms(1) that assms(4)] .
  have c6: "prio_rotation n hp tq (idx # rest) s = prio_rotation n hp tq rest (run_units s idx u)"
    if e: "int u = ?q" and nh: "\<not> higher_seen n hp s idx u"
  proof -
    have un: "nat ?q = u" using e by linarith
    have "prio_slice n hp idx (nat ?q) s = (run_units s idx u, False)"
    proof (cases "?r - int u = 0")
      case True
      then have "higher_seen n hp s idx u \<or> remaining_time (procs (run_units s idx u) ! idx) = 0"
        by (simp add: rem)
      from prio_slice_stops [OF assms(4) uq before this] nh show ?thesis by simp
    next
      case False
      have "\<forall>v. 1 \<le> v \<and> v \<le> u \<longrightarrow>
          \<not> higher_seen n hp s idx v \<and> remaining_time (procs (run_units s idx v) ! idx) \<noteq> 0"
      proof (intro allI impI)
        fix v assume v: "1 \<le> v \<and> v \<le> u"
        show "\<not> higher_seen n hp s idx v \<and> remaining_time (procs (run_units s idx v) ! idx) \<noteq> 0"
        proof (cases "v = u")
          case True
          with nh False show ?thesis by (simp add: rem)
        next
          case False
          with v have "1 \<le> v \<and> v < u" by simp
          with before show ?thesis by blast
        qed
      qed
      from prio_slice_expires [OF this] un show ?thesis by simp
    qed
    from prio_rotation_head [OF assms(2,3) this] show ?thesis by simp
  qed
  have c7: "\<forall>s0 ready. prio_collect (procs s0) (current_time s0) n = (hp, ready) \<and> ready \<noteq> [] \<longrightarrow>
            prio_iteration n tq s0 =
              Next (prio_rotation n hp tq
                      (bubble_sort (pid_swap (procs s0)) ready (length ready)) s0)"
    by (simp add: prio_iteration_def)
  from c1 c2 c3 c4 c5 c6 c7 show ?thesis by blast
qed

theorem prio_slice_preemption_and_completion_witness:
  "(0::nat) < length (procs (loop_start (reset_process_states prio_example))) \<and>
   completed (loop_start (reset_process_states prio_example)) < 2 \<and>
   0 < remaining_time (procs (loop_start (reset_process_states prio_example)) ! 0) \<and>
   (1::nat) \<le> 2 \<and>
   int 2 \<le> (if remaining_time (procs (loop_start (reset_process_states prio_example)) ! 0) < 2
             then remaining_time (procs (loop_start (reset_process_states prio_example)) ! 0) else 2) \<and>
   \<not> higher_seen 2 3 (loop_start (reset_process_states prio_example)) 0 1 \<and>
   higher_seen 2 3 (loop_start (reset_process_states prio_example)) 0 2 \<and>
   prio_rotation 2 3 2 [0] (loop_start (reset_process_states prio_example))
     = run_units (loop_start (reset_process_states prio_example)) 0 2 \<and>
   current_time (run_units (loop_start (reset_process_states prio_example)) 0 2) = 2"
proof -
  let ?s = "loop_start (reset_process_states prio_example)"
  have h1: "(0::nat) < length (procs ?s)" by code_simp
  have h2: "completed ?s < 2" by code_simp
  have h3: "0 < remaining_time (procs ?s ! 0)" by code_simp
  have h4: "(1::nat) \<le> 2" by simp
  have h5: "int 2 \<le> (if remaining_time (procs ?s ! 0) < 2 then remaining_time (procs ?s ! 0) else 2)"
    by code_simp
  have n1: "\<not> higher_seen 2 3 ?s 0 1" by code_simp
  have h6: "\<forall>v. 1 \<le> v \<and> v < 2 \<longrightarrow> \<not> higher_seen 2 3 ?s 0 v"
  proof (intro allI impI)
    fix v :: nat assume "1 \<le> v \<and> v < 2"
    then have "v = 1" by simp
    with n1 show "\<not> higher_seen 2 3 ?s 0 v" by simp
  qed
  have hs: "higher_seen 2 3 ?s 0 2" by code_simp
  from prio_slice_preemption_and_completion [OF h1 h2 h3 h4 h5 h6, of "[]"] hs
  have "prio_rotation 2 3 2 [0] ?s = run_units ?s 0 2"
    "current_time (run_units ?s 0 2) = wrap_int (current_time ?s + int 2)"
    by blast+
  moreover have "wrap_int (current_time ?s + int 2) = 2" by (simp add: wrap_int_def)
  ultimately show ?thesis using h1 h2 h3 h4 h5 n1 hs by simp
qed

text \<open>
  The claim as stated fails when a completion and a higher-priority arrival fall on the same
  instant. P1 and P2 (priority 3, burst 2) arrive at 0 and form the group \<open>[P1, P2]\<close>; P3
  (priority 1) arrives at 2. P1 runs two units and reaches remaining time 0 at clock 2, where the
  arrival of P3 is seen: the rotation ends there and P2, the next member of the group, has not
  run. Had the engine moved on to P2, the clock would stand at 4 after the rotation. The run
  ends with completion times 2, 5 and 3.
\<close>

theorem prio_completion_with_arrival_counterexample:
  "prio_collect (procs (loop_start (reset_process_states prio_coincide))) 0 3 = (3, [0, 1]) \<and>
   remaining_time (procs (run_units (loop_start (reset_process_states prio_coincide)) 0 2) ! 0) = 0 \<and>
   completion_time (procs (run_units (loop_start (reset_process_states prio_coincide)) 0 2) ! 0) = 2 \<and>
   higher_seen 3 3 (loop_start (reset_process_states prio_coincide)) 0 2 \<and>
   current_time (prio_rotation 3 3 2 [0, 1] (loop_start (reset_process_states prio_coincide))) = 2 \<and>
   remaining_time
     (procs (prio_rotation 3 3 2 [0, 1] (loop_start (reset_process_states prio_coincide))) ! 1) = 2 \<and>
   current_time
     (prio_rotation 3 3 2 [1] (run_units (loop_start (reset_process_states prio_coincide)) 0 2)) = 4 \<and>
   priority_preemptive_rr prio_coincide =
     Some (prio_coincide\<lparr>processes :=
             [(mk_process 1 0 2 3)\<lparr>completion_time := 2\<rparr>,
              (mk_process 2 0 2 3)\<lparr>completion_time := 5\<rparr>,
              (mk_process 3 2 1 1)\<lparr>completion_time := 3\<rparr>]\<rparr>,
           [''PRIORITY_PREEMPTIVE_WITH_RR''])"
  by code_simp

section \<open>Round robin: the precondition check\<close>

text \<open>
  Claim C7. If \<^verbatim>\<open>round_robin\<close> is called with \<open>time_quantum \<le> 0\<close> or \<open>num_processes \<le> 0\<close>,
  the call returns at once: the context is the one passed in (no reset of the process states, no
  completion time written) and the results reporter is not called.
\<close>

theorem round_robin_noop:
  "tq \<le> 0 \<or> num_processes ctx \<le> 0 \<Longrightarrow> round_robin ctx tq = Some (ctx, [])"
  by (simp add: round_robin_def)

theorem round_robin_noop_witness:
  "((0::int) \<le> 0 \<or> num_processes rr_example \<le> 0) \<and> round_robin rr_example 0 = Some (rr_example, [])"
  using round_robin_noop [of 0 rr_example] by simp

section \<open>Round robin: proofs\<close>

subsection \<open>The circular queue as a list\<close>

lemma smod_nonneg: "0 \<le> a \<Longrightarrow> 0 < b \<Longrightarrow> (a::int) smod b = a mod b"
  by (auto simp: smod_int_alt_def sgn_if)

lemma queue_list_length [simp]: "length (queue_list qu) = queue_len qu"
  by (simp add: queue_list_def)

lemma queue_len_le: "wfq qu \<Longrightarrow> queue_len qu \<le> nat QUEUE_MAX"
  unfolding queue_len_def wfq_def QUEUE_MAX_def by auto

lemma is_empty_queue_list: "is_empty qu \<longleftrightarrow> queue_list qu = []"
  by (auto simp: is_empty_def queue_list_def queue_len_def)

text \<open>Arithmetic modulo the capacity.\<close>

lemma mod_succ:
  fixes r :: int
  shows "0 \<le> r \<Longrightarrow> r < 1000 \<Longrightarrow> (r + 1) mod 1000 = (if r = 999 then 0 else r + 1)"
  by simp

lemma mod_diff:
  fixes f r :: int
  assumes "0 \<le> f" "f < 1000" "0 \<le> r" "r < 1000"
  shows "(r - f) mod 1000 = (if f \<le> r then r - f else r - f + 1000)"
proof (cases "f \<le> r")
  case True
  with assms show ?thesis by simp
next
  case False
  have "(r - f) mod 1000 = (r - f + 1000) mod 1000" by simp
  also have "\<dots> = r - f + 1000" using False assms by (intro mod_pos_pos_trivial) auto
  finally show ?thesis using False by simp
qed

lemma mod_sum:
  fixes f k :: int
  assumes "0 \<le> f" "f < 1000" "0 \<le> k" "k < 1000"
  shows "(f + k) mod 1000 = (if f + k < 1000 then f + k else f + k - 1000)"
proof (cases "f + k < 1000")
  case True
  with assms show ?thesis by simp
next
  case False
  have "(f + k) mod 1000 = (f + k - 1000) mod 1000" by simp
  also have "\<dots> = f + k - 1000" using False assms by (intro mod_pos_pos_trivial) auto
  finally show ?thesis using False by simp
qed

lemma full_arith:
  fixes f r :: int
  shows "0 \<le> f \<Longrightarrow> f < 1000 \<Longrightarrow> 0 \<le> r \<Longrightarrow> r < 1000 \<Longrightarrow>
    ((r + 1) mod 1000 = f) = ((r - f) mod 1000 = 999)"
  by (simp add: mod_succ mod_diff) linarith

lemma enq_len_arith:
  fixes f r :: int
  assumes "0 \<le> f" "f < 1000" "0 \<le> r" "r < 1000" "(r - f) mod 1000 \<noteq> 999"
  shows "((r + 1) mod 1000 - f) mod 1000 = (r - f) mod 1000 + 1"
proof -
  have s: "0 \<le> (r + 1) mod 1000" "(r + 1) mod 1000 < 1000" by simp_all
  show ?thesis
    unfolding mod_diff [OF assms(1,2) s]
    using assms by (simp add: mod_succ mod_diff split: if_splits)
qed

lemma enq_old_arith:
  fixes f r k :: int
  assumes "0 \<le> f" "f < 1000" "0 \<le> r" "r < 1000" "(r - f) mod 1000 \<noteq> 999"
    "0 \<le> k" "k \<le> (r - f) mod 1000"
  shows "(f + k) mod 1000 \<noteq> (r + 1) mod 1000"
proof -
  have "(r - f) mod 1000 < 1000" by simp
  with assms have k: "k < 1000" by linarith
  show ?thesis
    using assms k by (simp add: mod_succ mod_diff mod_sum split: if_splits)
qed

lemma enq_new_arith:
  fixes f r :: int
  assumes "0 \<le> f" "f < 1000" "0 \<le> r" "r < 1000"
  shows "(f + ((r - f) mod 1000 + 1)) mod 1000 = (r + 1) mod 1000"
proof -
  have "(f + ((r - f) mod 1000 + 1)) mod 1000 = (f + (r - f) + 1) mod 1000"
    by (metis add.assoc mod_add_left_eq mod_add_right_eq)
  then show ?thesis by simp
qed

lemma deq_len_arith:
  fixes f r :: int
  assumes "0 \<le> f" "f < 1000" "0 \<le> r" "r < 1000" "f \<noteq> r"
  shows "(r - (f + 1) mod 1000) mod 1000 + 1 = (r - f) mod 1000"
proof -
  have s: "0 \<le> (f + 1) mod 1000" "(f + 1) mod 1000 < 1000" by simp_all
  show ?thesis
    unfolding mod_diff [OF s assms(3,4)]
    using assms by (simp add: mod_succ mod_diff split: if_splits)
qed

lemma deq_idx_arith:
  fixes f k :: int
  shows "((f + 1) mod 1000 + k) mod 1000 = (f + (k + 1)) mod 1000"
  by (metis add.assoc add.commute mod_add_left_eq)

lemma queue_full_iff:
  assumes "wfq qu"
  shows "queue_full qu \<longleftrightarrow> queue_len qu = nat QUEUE_MAX"
proof (cases "front qu = - 1")
  case True
  with assms show ?thesis
    by (auto simp: wfq_def queue_full_def queue_len_def QUEUE_MAX_def)
next
  case False
  with assms have r: "0 \<le> front qu" "front qu < 1000" "0 \<le> rear qu" "rear qu < 1000"
    by (auto simp: wfq_def QUEUE_MAX_def)
  have sm: "(rear qu + 1) smod 1000 = (rear qu + 1) mod 1000"
    using r by (intro smod_nonneg) auto
  have "0 \<le> (rear qu - front qu) mod 1000" by simp
  then have "(nat ((rear qu - front qu) mod 1000) + 1 = 1000) = ((rear qu - front qu) mod 1000 = 999)"
    by linarith
  then show ?thesis
    using False full_arith [OF r] unfolding queue_full_def queue_len_def QUEUE_MAX_def sm
    by simp
qed

lemma enqueue_list:
  assumes w: "wfq qu" and nf: "\<not> queue_full qu"
  shows "wfq (enqueue qu x) \<and> queue_list (enqueue qu x) = queue_list qu @ [x]"
proof (cases "front qu = - 1")
  case True
  with w have r: "rear qu = - 1" and len: "length (items qu) = 1000"
    by (auto simp: wfq_def QUEUE_MAX_def)
  have e: "enqueue qu x = qu\<lparr>items := (items qu)[0 := x], front := 0, rear := 0\<rparr>"
    using nf True by (simp add: enqueue_def is_empty_def)
  show ?thesis
    unfolding e using True len
    by (simp add: wfq_def queue_list_def queue_len_def QUEUE_MAX_def)
next
  case False
  with w have r: "0 \<le> front qu" "front qu < 1000" "0 \<le> rear qu" "rear qu < 1000"
    and len: "length (items qu) = 1000"
    by (auto simp: wfq_def QUEUE_MAX_def)
  let ?f = "front qu" and ?r = "rear qu"
  let ?d = "(?r - ?f) mod 1000"
  let ?r' = "(?r + 1) mod 1000"
  have sm: "(?r + 1) smod 1000 = ?r'"
    using r by (intro smod_nonneg) auto
  have d: "?d \<noteq> 999" "0 \<le> ?d"
    using nf False queue_full_iff [OF w] full_arith [OF r]
    by (simp_all add: queue_full_def QUEUE_MAX_def sm)
  have e: "enqueue qu x = qu\<lparr>items := (items qu)[nat ?r' := x], rear := ?r'\<rparr>"
    using nf False by (simp add: enqueue_def is_empty_def Let_def QUEUE_MAX_def sm)
  have r': "0 \<le> ?r'" "?r' < 1000" by simp_all
  have w': "wfq (enqueue qu x)"
    unfolding e using r r' len by (simp add: wfq_def QUEUE_MAX_def)
  have len': "queue_len (enqueue qu x) = queue_len qu + 1"
    unfolding e using False d enq_len_arith [OF r d(1)]
    by (simp add: queue_len_def QUEUE_MAX_def nat_add_distrib)
  have ql: "queue_len qu = nat ?d + 1"
    using False by (simp add: queue_len_def QUEUE_MAX_def)
  have "queue_list (enqueue qu x) = queue_list qu @ [x]"
  proof (rule nth_equalityI)
    show "length (queue_list (enqueue qu x)) = length (queue_list qu @ [x])"
      using len' by simp
  next
    fix k assume "k < length (queue_list (enqueue qu x))"
    then have k: "k < queue_len qu + 1" using len' by simp
    show "queue_list (enqueue qu x) ! k = (queue_list qu @ [x]) ! k"
    proof (cases "k < queue_len qu")
      case True
      then have kd: "int k \<le> ?d" using ql by linarith
      have "(?f + int k) mod 1000 \<noteq> ?r'"
        using enq_old_arith [OF r d(1) _ kd] by simp
      moreover have "0 \<le> (?f + int k) mod 1000" by simp
      ultimately have ne: "nat ?r' \<noteq> nat ((?f + int k) mod 1000)"
        using r'(1) by linarith
      show ?thesis
        using True k ne unfolding e
        by (simp add: queue_list_def len' [unfolded e] QUEUE_MAX_def nth_append)
    next
      case False
      with k have kk: "k = queue_len qu" by simp
      then have "int k = ?d + 1" using ql d(2) by linarith
      then have idx: "(?f + int k) mod 1000 = ?r'"
        using enq_new_arith [OF r] by simp
      have "nat ?r' < length (items qu)" using r' len by linarith
      then show ?thesis
        using k kk idx unfolding e
        by (simp add: queue_list_def len' [unfolded e] QUEUE_MAX_def nth_append)
    qed
  qed
  with w' show ?thesis by simp
qed

lemma dequeue_list:
  assumes w: "wfq qu" and ne: "\<not> is_empty qu"
  shows "fst (dequeue qu) = hd (queue_list qu) \<and> wfq (snd (dequeue qu)) \<and>
         queue_list (snd (dequeue qu)) = tl (queue_list qu)"
proof -
  from ne have False': "front qu \<noteq> - 1" by (simp add: is_empty_def)
  with w have r: "0 \<le> front qu" "front qu < 1000" "0 \<le> rear qu" "rear qu < 1000"
    and len: "length (items qu) = 1000"
    by (auto simp: wfq_def QUEUE_MAX_def)
  let ?f = "front qu" and ?r = "rear qu"
  have ql: "queue_len qu = nat ((?r - ?f) mod 1000) + 1"
    using False' by (simp add: queue_len_def QUEUE_MAX_def)
  have "?f mod 1000 = ?f" using r by simp
  moreover have "queue_list qu \<noteq> []"
    using ql queue_list_length [of qu] by (cases "queue_list qu") simp_all
  moreover have "queue_list qu ! 0 = items qu ! nat ((?f + int 0) mod 1000)"
    unfolding queue_list_def using ql by (simp add: QUEUE_MAX_def del: upt_Suc)
  ultimately have hd: "hd (queue_list qu) = items qu ! nat ?f"
    by (simp add: hd_conv_nth)
  have fst: "fst (dequeue qu) = items qu ! nat ?f"
    using ne by (simp add: dequeue_def Let_def)
  show ?thesis
  proof (cases "?f = ?r")
    case True
    then have d: "dequeue qu = (items qu ! nat ?f, qu\<lparr>front := - 1, rear := - 1\<rparr>)"
      using ne by (simp add: dequeue_def Let_def)
    have "queue_len qu = 1" using ql True by simp
    then have "tl (queue_list qu) = []"
      using queue_list_length [of qu] by (cases "queue_list qu") simp_all
    then show ?thesis
      using hd fst len unfolding d
      by (simp add: wfq_def queue_list_def queue_len_def QUEUE_MAX_def)
  next
    case False
    let ?f' = "(?f + 1) mod 1000"
    have sm: "(?f + 1) smod 1000 = ?f'" using r by (intro smod_nonneg) auto
    have d: "dequeue qu = (items qu ! nat ?f, qu\<lparr>front := ?f'\<rparr>)"
      using ne False by (simp add: dequeue_def Let_def QUEUE_MAX_def sm)
    have f': "0 \<le> ?f'" "?f' < 1000" by simp_all
    then have fne: "?f' \<noteq> - 1" by linarith
    have w': "wfq (snd (dequeue qu))"
      unfolding d using r f' len by (simp add: wfq_def QUEUE_MAX_def)
    have "0 \<le> (?r - ?f') mod 1000" by simp
    then have len': "queue_len (snd (dequeue qu)) + 1 = queue_len qu"
      unfolding d using fne deq_len_arith [OF r False] ql
      by (simp add: queue_len_def QUEUE_MAX_def) linarith
    have "queue_list (snd (dequeue qu)) = tl (queue_list qu)"
    proof (rule nth_equalityI)
      show "length (queue_list (snd (dequeue qu))) = length (tl (queue_list qu))"
        using len' by simp
    next
      fix k assume "k < length (queue_list (snd (dequeue qu)))"
      then have k: "k < queue_len (snd (dequeue qu))" by simp
      with len' have k1: "Suc k < queue_len qu" by simp
      have "tl (queue_list qu) ! k = queue_list qu ! Suc k"
        using k1 by (simp add: nth_tl)
      also have "\<dots> = items qu ! nat ((?f + (int k + 1)) mod 1000)"
        using k1 by (simp add: queue_list_def QUEUE_MAX_def add.commute)
      also have "\<dots> = items qu ! nat ((?f' + int k) mod 1000)"
        by (simp only: deq_idx_arith)
      also have "\<dots> = queue_list (snd (dequeue qu)) ! k"
        using k unfolding d by (simp add: queue_list_def QUEUE_MAX_def)
      finally show "queue_list (snd (dequeue qu)) ! k = tl (queue_list qu) ! k" by simp
    qed
    with w' hd fst show ?thesis by simp
  qed
qed

subsection \<open>Enqueuing an index that is not in the queue\<close>

lemma rr_enqueue_fields [simp]:
  "procs (rr_enqueue s i) = procs s" "current_time (rr_enqueue s i) = current_time s"
  "completed (rr_enqueue s i) = completed s" "remaining (rr_enqueue s i) = remaining s"
  "is_completed (rr_enqueue s i) = is_completed s"
  "in_ready_queue (rr_enqueue s i) = (in_ready_queue s)[i := True]"
  "rr_rest n (rr_enqueue s i) = rr_rest n s"
  by (simp_all add: rr_enqueue_def rr_rest_def)

lemma distinct_bounded_length:
  assumes "distinct xs" "\<forall>x\<in>set xs. 0 \<le> x \<and> nat x < n" "int i \<notin> set xs" "i < n"
  shows "length xs < n"
proof -
  have "set xs \<subseteq> int ` ({..<n} - {i})"
  proof
    fix x assume x: "x \<in> set xs"
    with assms(2) have "0 \<le> x" "nat x < n" by auto
    moreover from x assms(3) have "nat x \<noteq> i" using \<open>0 \<le> x\<close> by auto
    ultimately have "nat x \<in> {..<n} - {i}" by simp
    then have "int (nat x) \<in> int ` ({..<n} - {i})" by (rule imageI)
    with \<open>0 \<le> x\<close> show "x \<in> int ` ({..<n} - {i})" by simp
  qed
  then have "card (set xs) \<le> card (int ` ({..<n} - {i}))"
    by (intro card_mono) auto
  also have "\<dots> = card ({..<n} - {i})"
    by (intro card_image) (auto simp: inj_on_def)
  also have "\<dots> = n - 1" using assms(4) by simp
  finally show ?thesis
    using assms(1,4) by (simp add: distinct_card)
qed

lemma rr_enqueue_inv:
  assumes inv: "rr_inv n s" and i: "i < n" and nq: "\<not> in_ready_queue s ! i"
    and arr: "arrival_time (procs s ! i) \<le> current_time s \<and> \<not> is_completed s ! i"
  shows "rr_inv n (rr_enqueue s i) \<and> queue_list (q (rr_enqueue s i)) = queue_list (q s) @ [int i]"
proof -
  from inv have len: "n \<le> length (procs s)" "length (remaining s) = length (procs s)"
      "length (is_completed s) = length (procs s)" "length (in_ready_queue s) = length (procs s)"
    and cap: "int n \<le> QUEUE_MAX" and w: "wfq (q s)"
    and sub: "\<forall>x\<in>set (queue_list (q s)). 0 \<le> x \<and> nat x < n"
    and dist: "distinct (queue_list (q s))"
    and flags: "\<forall>i<n. in_ready_queue s ! i \<longleftrightarrow> int i \<in> set (queue_list (q s))"
    and dr: "dropped s = 0"
    and arrd: "\<forall>i<n. in_ready_queue s ! i \<longrightarrow>
                 arrival_time (procs s ! i) \<le> current_time s \<and> \<not> is_completed s ! i"
    and rem: "\<forall>i<n. 0 \<le> remaining s ! i"
    and clk: "0 \<le> current_time s" "current_time s + rr_rest n s \<le> INT_MAX"
      "\<forall>i<n. arrival_time (procs s ! i) + rr_rest n s \<le> INT_MAX"
    by (simp_all add: rr_inv_def)
  have notin: "int i \<notin> set (queue_list (q s))" using flags i nq by simp
  have "length (queue_list (q s)) < n"
    using distinct_bounded_length [OF dist sub notin i] .
  with cap have "queue_len (q s) \<noteq> nat QUEUE_MAX" by simp
  then have nf: "\<not> queue_full (q s)" using queue_full_iff [OF w] by simp
  from enqueue_list [OF w nf, of "int i"]
  have w': "wfq (enqueue (q s) (int i))"
    and ql: "queue_list (enqueue (q s) (int i)) = queue_list (q s) @ [int i]" by simp_all
  have q': "q (rr_enqueue s i) = enqueue (q s) (int i)" by (simp add: rr_enqueue_def)
  have d': "dropped (rr_enqueue s i) = 0" using dr nf by (simp add: rr_enqueue_def)
  have il: "i < length (in_ready_queue s)" using i len by simp
  have flags': "\<forall>j<n. in_ready_queue (rr_enqueue s i) ! j \<longleftrightarrow>
                 int j \<in> set (queue_list (q (rr_enqueue s i)))"
    using flags il by (auto simp: q' ql nth_list_update)
  have arrd': "\<forall>j<n. in_ready_queue (rr_enqueue s i) ! j \<longrightarrow>
                 arrival_time (procs (rr_enqueue s i) ! j) \<le> current_time (rr_enqueue s i) \<and>
                 \<not> is_completed (rr_enqueue s i) ! j"
    using arrd arr il by (auto simp: nth_list_update)
  have "rr_inv n (rr_enqueue s i)"
    unfolding rr_inv_def
    using len cap w' sub dist notin i d' flags' arrd' rem clk
    by (simp add: q' ql)
  with ql q' show ?thesis by simp
qed

subsection \<open>The loops that enqueue arrivals\<close>

lemma admit_fields [simp]:
  "procs (admit C s k) = procs s" "current_time (admit C s k) = current_time s"
  "completed (admit C s k) = completed s" "remaining (admit C s k) = remaining s"
  "is_completed (admit C s k) = is_completed s"
  by (induction k) (simp_all add: Let_def)

lemma admit_spec:
  assumes inv: "rr_inv n s" and kn: "k \<le> n"
    and stable: "\<And>s' j i. j \<noteq> i \<Longrightarrow> C (rr_enqueue s' j) i = C s' i"
    and new: "\<And>i. i < k \<Longrightarrow> C s i \<Longrightarrow>
               \<not> in_ready_queue s ! i \<and> arrival_time (procs s ! i) \<le> current_time s \<and>
               \<not> is_completed s ! i"
  shows "rr_inv n (admit C s k) \<and>
         queue_list (q (admit C s k)) = queue_list (q s) @ map int (filter (C s) [0..<k]) \<and>
         (\<forall>i. k \<le> i \<longrightarrow> C (admit C s k) i = C s i)"
  using kn new
proof (induction k)
  case 0
  with inv show ?case by simp
next
  case (Suc k)
  let ?s1 = "admit C s k"
  have "k \<le> n" using Suc.prems(1) by simp
  moreover have "\<And>i. i < k \<Longrightarrow> C s i \<Longrightarrow>
               \<not> in_ready_queue s ! i \<and> arrival_time (procs s ! i) \<le> current_time s \<and>
               \<not> is_completed s ! i"
    using Suc.prems(2) by simp
  ultimately have IH: "rr_inv n ?s1"
    "queue_list (q ?s1) = queue_list (q s) @ map int (filter (C s) [0..<k])"
    "\<forall>i. k \<le> i \<longrightarrow> C ?s1 i = C s i"
    using Suc.IH by simp_all
  have ck: "C ?s1 k = C s k" using IH(3) by simp
  show ?case
  proof (cases "C s k")
    case False
    with ck IH show ?thesis by (simp add: Let_def)
  next
    case True
    with ck have st: "admit C s (Suc k) = rr_enqueue ?s1 k" by (simp add: Let_def)
    have kn': "k < n" using Suc.prems(1) by simp
    from Suc.prems(2) [of k] True
    have nq: "\<not> in_ready_queue s ! k"
      and arr: "arrival_time (procs s ! k) \<le> current_time s \<and> \<not> is_completed s ! k"
      by simp_all
    have "int k \<notin> set (queue_list (q s))"
      using inv kn' nq by (simp add: rr_inv_def)
    then have "int k \<notin> set (queue_list (q ?s1))"
      unfolding IH(2) by auto
    then have nq1: "\<not> in_ready_queue ?s1 ! k"
      using IH(1) kn' by (simp add: rr_inv_def)
    have arr1: "arrival_time (procs ?s1 ! k) \<le> current_time ?s1 \<and> \<not> is_completed ?s1 ! k"
      using arr by simp
    from rr_enqueue_inv [OF IH(1) kn' nq1 arr1]
    have e: "rr_inv n (rr_enqueue ?s1 k)"
      "queue_list (q (rr_enqueue ?s1 k)) = queue_list (q ?s1) @ [int k]" by simp_all
    have "\<forall>i. Suc k \<le> i \<longrightarrow> C (rr_enqueue ?s1 k) i = C s i"
      using stable [of k] IH(3) by simp
    with e True show ?thesis
      unfolding st IH(2) by simp
  qed
qed

lemma rr_admit_zero_admit:
  "rr_admit_zero s k = admit (\<lambda>s k. arrival_time (procs s ! k) = 0) s k"
  by (induction k) (simp_all add: Let_def)

lemma rr_admit_at_admit:
  "rr_admit_at s k =
   admit (\<lambda>s k. \<not> is_completed s ! k \<and> arrival_time (procs s ! k) = current_time s \<and>
                 \<not> in_ready_queue s ! k) s k"
  by (induction k) (simp_all add: Let_def)

lemma rr_admit_window_admit:
  "rr_admit_window start_time s k =
   admit (\<lambda>s k. \<not> is_completed s ! k \<and> \<not> in_ready_queue s ! k \<and>
                 arrival_time (procs s ! k) > start_time \<and>
                 arrival_time (procs s ! k) \<le> current_time s) s k"
  by (induction k) (simp_all add: Let_def)

subsection \<open>The idle scan\<close>

lemma rr_next_arrival_scan_le_max: "rr_next_arrival_scan s k \<le> INT_MAX"
  by (induction k) (auto simp: Let_def)

lemma rr_next_arrival_scan_cases:
  "rr_next_arrival_scan s k = INT_MAX \<or>
   (\<exists>i<k. \<not> is_completed s ! i \<and> arrival_time (procs s ! i) > current_time s \<and>
          rr_next_arrival_scan s k = arrival_time (procs s ! i))"
  by (induction k) (auto simp: Let_def less_Suc_eq)

lemma rr_next_arrival_scan_le:
  "i < k \<Longrightarrow> \<not> is_completed s ! i \<Longrightarrow> arrival_time (procs s ! i) > current_time s \<Longrightarrow>
   rr_next_arrival_scan s k \<le> arrival_time (procs s ! i)"
  by (induction k) (auto simp: Let_def less_Suc_eq)

subsection \<open>A slice\<close>

lemma completion_update_nth:
  "ps[idx := (ps ! idx)\<lparr>completion_time := c\<rparr>] ! i =
   (if i = idx \<and> idx < length ps then (ps ! idx)\<lparr>completion_time := c\<rparr> else ps ! i)"
  by (cases "idx < length ps") (auto simp: list_update_beyond nth_list_update)

lemma completion_update_fields [simp]:
  "arrival_time (ps[idx := (ps ! idx)\<lparr>completion_time := c\<rparr>] ! i) = arrival_time (ps ! i)"
  "burst_time (ps[idx := (ps ! idx)\<lparr>completion_time := c\<rparr>] ! i) = burst_time (ps ! i)"
  "valid_process (ps[idx := (ps ! idx)\<lparr>completion_time := c\<rparr>] ! i) = valid_process (ps ! i)"
  by (simp_all add: completion_update_nth valid_process_def)

lemma sum_nth_update:
  fixes xs :: "int list"
  assumes "idx < n" "idx < length xs"
  shows "(\<Sum>i<n. xs[idx := v] ! i) = (\<Sum>i<n. xs ! i) - xs ! idx + v"
proof -
  have fin: "finite {..<n}" and mem: "idx \<in> {..<n}" using assms by auto
  have rest: "sum (\<lambda>i. xs[idx := v] ! i) ({..<n} - {idx}) = sum (\<lambda>i. xs ! i) ({..<n} - {idx})"
    by (rule sum.cong) auto
  have "(\<Sum>i<n. xs[idx := v] ! i) = xs[idx := v] ! idx + sum (\<lambda>i. xs[idx := v] ! i) ({..<n} - {idx})"
    by (rule sum.remove [OF fin mem])
  moreover have "(\<Sum>i<n. xs ! i) = xs ! idx + sum (\<lambda>i. xs ! i) ({..<n} - {idx})"
    by (rule sum.remove [OF fin mem])
  ultimately show ?thesis
    using rest assms(2) by simp
qed

lemma rr_rest_fields [simp]:
  "rr_rest n (s\<lparr>q := a\<rparr>) = rr_rest n s"
  "rr_rest n (s\<lparr>in_ready_queue := b\<rparr>) = rr_rest n s"
  "rr_rest n (s\<lparr>current_time := c\<rparr>) = rr_rest n s"
  "rr_rest n (s\<lparr>is_completed := d\<rparr>) = rr_rest n s"
  "rr_rest n (s\<lparr>completed := e\<rparr>) = rr_rest n s"
  "rr_rest n (s\<lparr>procs := f\<rparr>) = rr_rest n s"
  by (simp_all add: rr_rest_def)

text \<open>The arrivals a slice enqueues: not completed, not in the queue once the front has been
  taken off, with an arrival time in the window \<open>(start_time, time]\<close>.\<close>

lemma rr_slice_spec:
  assumes inv: "rr_inv n s" and ne: "\<not> is_empty (q s)" and tq: "0 < tq"
  defines "idx \<equiv> nat (hd (queue_list (q s)))"
  defines "exec_time \<equiv> (if remaining s ! idx < tq then remaining s ! idx else tq)"
  defines "W \<equiv> (\<lambda>i. \<not> is_completed s ! i \<and> \<not> (in_ready_queue s)[idx := False] ! i \<and>
                      arrival_time (procs s ! i) > current_time s \<and>
                      arrival_time (procs s ! i) \<le> current_time s + exec_time)"
  shows "idx < n" "in_ready_queue s ! idx" "0 \<le> exec_time" "\<not> W idx"
    and "rr_inv n (rr_slice n tq s)"
    and "current_time (rr_slice n tq s) = current_time s + exec_time"
    and "remaining (rr_slice n tq s) = (remaining s)[idx := remaining s ! idx - exec_time]"
    and "queue_list (q (rr_slice n tq s)) =
           tl (queue_list (q s)) @ map int (filter W [0..<n]) @
           (if remaining s ! idx - exec_time = 0 then [] else [int idx])"
    and "is_completed (rr_slice n tq s) =
           (if remaining s ! idx - exec_time = 0 then (is_completed s)[idx := True]
            else is_completed s)"
    and "completed (rr_slice n tq s) =
           (if remaining s ! idx - exec_time = 0 then completed s + 1 else completed s)"
    and "procs (rr_slice n tq s) =
           (if remaining s ! idx - exec_time = 0
            then (procs s)[idx := (procs s ! idx)\<lparr>completion_time := current_time s + exec_time\<rparr>]
            else procs s)"
    and "\<forall>i<n. in_ready_queue (rr_slice n tq s) ! i \<longleftrightarrow>
           (i \<noteq> idx \<and> in_ready_queue s ! i) \<or> W i \<or>
           (i = idx \<and> remaining s ! idx - exec_time \<noteq> 0)"
proof -
  from inv have len: "n \<le> length (procs s)" "length (remaining s) = length (procs s)"
      "length (is_completed s) = length (procs s)" "length (in_ready_queue s) = length (procs s)"
    and cap: "int n \<le> QUEUE_MAX" and w: "wfq (q s)"
    and sub: "\<forall>x\<in>set (queue_list (q s)). 0 \<le> x \<and> nat x < n"
    and dist: "distinct (queue_list (q s))"
    and flags: "\<forall>i<n. in_ready_queue s ! i \<longleftrightarrow> int i \<in> set (queue_list (q s))"
    and dr: "dropped s = 0"
    and arrd: "\<forall>i<n. in_ready_queue s ! i \<longrightarrow>
                 arrival_time (procs s ! i) \<le> current_time s \<and> \<not> is_completed s ! i"
    and rem: "\<forall>i<n. 0 \<le> remaining s ! i"
    and clk: "0 \<le> current_time s" "current_time s + rr_rest n s \<le> INT_MAX"
      "\<forall>i<n. arrival_time (procs s ! i) + rr_rest n s \<le> INT_MAX"
    by (simp_all add: rr_inv_def)
  let ?item = "hd (queue_list (q s))"
  from ne have qne: "queue_list (q s) \<noteq> []" by (simp add: is_empty_queue_list)
  then have hd_in: "?item \<in> set (queue_list (q s))" by simp
  obtain item0 q1 where deq0: "dequeue (q s) = (item0, q1)" by (cases "dequeue (q s)")
  with dequeue_list [OF w ne] have deq: "dequeue (q s) = (?item, q1)"
    and w1: "wfq q1" and ql1: "queue_list q1 = tl (queue_list (q s))"
    by simp_all
  from sub hd_in have item: "0 \<le> ?item" "nat ?item < n" by auto
  then show idx: "idx < n" by (simp add: idx_def)
  have int_idx: "int idx = ?item" using item by (simp add: idx_def)
  show fl: "in_ready_queue s ! idx" using flags idx hd_in int_idx by simp
  have ri: "0 \<le> remaining s ! idx" using rem idx by simp
  then show ex: "0 \<le> exec_time" using tq by (simp add: exec_time_def)
  have ai: "arrival_time (procs s ! idx) \<le> current_time s" and nc: "\<not> is_completed s ! idx"
    using arrd idx fl by simp_all
  then show nW: "\<not> W idx" by (simp add: W_def)
  have il: "idx < length (in_ready_queue s)" "idx < length (remaining s)"
    "idx < length (is_completed s)" "idx < length (procs s)"
    using idx len by simp_all
  define s1 where "s1 = s\<lparr>q := q1, in_ready_queue := (in_ready_queue s)[idx := False]\<rparr>"
  define s2 where "s2 = s1\<lparr>current_time := current_time s + exec_time,
                     remaining := (remaining s)[idx := remaining s ! idx - exec_time]\<rparr>"
  define s3 where "s3 = rr_admit_window (current_time s) s2 n"
  have notin_tl: "int idx \<notin> set (tl (queue_list (q s)))"
    using dist qne int_idx by (cases "queue_list (q s)") auto
  have tl_sub: "set (tl (queue_list (q s))) \<subseteq> set (queue_list (q s))"
    using qne by (cases "queue_list (q s)") auto
  have in_tl: "x \<in> set (queue_list (q s)) \<Longrightarrow> x \<noteq> int idx \<Longrightarrow> x \<in> set (tl (queue_list (q s)))" for x
    using qne int_idx by (cases "queue_list (q s)") auto
  have flags1: "\<forall>i<n. (in_ready_queue s)[idx := False] ! i \<longleftrightarrow> int i \<in> set (tl (queue_list (q s)))"
  proof (intro allI impI)
    fix i assume i: "i < n"
    show "(in_ready_queue s)[idx := False] ! i \<longleftrightarrow> int i \<in> set (tl (queue_list (q s)))"
    proof (cases "i = idx")
      case True
      with il notin_tl show ?thesis by simp
    next
      case False
      then have "(in_ready_queue s)[idx := False] ! i = in_ready_queue s ! i" by simp
      also have "\<dots> \<longleftrightarrow> int i \<in> set (queue_list (q s))" using flags i by simp
      also have "\<dots> \<longleftrightarrow> int i \<in> set (tl (queue_list (q s)))"
        using False in_tl [of "int i"] tl_sub by auto
      finally show ?thesis .
    qed
  qed
  have sub1: "\<forall>x\<in>set (tl (queue_list (q s))). 0 \<le> x \<and> nat x < n"
    using sub tl_sub by blast
  have arrd2: "\<forall>i<n. (in_ready_queue s)[idx := False] ! i \<longrightarrow>
                 arrival_time (procs s ! i) \<le> current_time s + exec_time \<and> \<not> is_completed s ! i"
  proof (intro allI impI)
    fix i assume i: "i < n" and f: "(in_ready_queue s)[idx := False] ! i"
    then have "i \<noteq> idx" using il by auto
    with f have "in_ready_queue s ! i" by simp
    with arrd i have "arrival_time (procs s ! i) \<le> current_time s" "\<not> is_completed s ! i"
      by simp_all
    with ex show "arrival_time (procs s ! i) \<le> current_time s + exec_time \<and> \<not> is_completed s ! i"
      by simp
  qed
  have le: "exec_time \<le> remaining s ! idx" by (simp add: exec_time_def)
  have "remaining s ! idx \<le> rr_rest n s"
    unfolding rr_rest_def
    by (rule member_le_sum [where f = "\<lambda>i. remaining s ! i"]) (use rem idx in auto)
  with le have er: "exec_time \<le> rr_rest n s" by simp
  have wr: "wrap_int (current_time s + exec_time) = current_time s + exec_time"
    using clk(1,2) ex er by (simp add: wrap_int_id INT_MAX_def)
  have rest2: "rr_rest n (s\<lparr>remaining := (remaining s)[idx := remaining s ! idx - exec_time]\<rparr>)
      = rr_rest n s - exec_time"
    using sum_nth_update [OF idx il(2), of "remaining s ! idx - exec_time"]
    by (simp add: rr_rest_def)
  have rem2: "\<forall>i<n. 0 \<le> (remaining s)[idx := remaining s ! idx - exec_time] ! i"
    using rem le il by (simp add: nth_list_update)
  have rest2': "rr_rest n s2 = rr_rest n s - exec_time"
    using rest2 by (simp add: s2_def s1_def rr_rest_def)
  have clk2: "0 \<le> current_time s + exec_time" "current_time s + exec_time + (rr_rest n s - exec_time) \<le> INT_MAX"
      "\<forall>i<n. arrival_time (procs s ! i) + (rr_rest n s - exec_time) \<le> INT_MAX"
    using clk ex by auto
  have inv2: "rr_inv n s2"
    unfolding rr_inv_def rest2'
    unfolding s2_def s1_def
    using len cap w1 sub1 dist flags1 dr arrd2 rem2 clk2
    by (simp add: ql1 distinct_tl)
  let ?C = "\<lambda>s k. \<not> is_completed s ! k \<and> \<not> in_ready_queue s ! k \<and>
                 arrival_time (procs s ! k) > current_time s \<and>
                 arrival_time (procs s ! k) \<le> current_time s"
  let ?Cw = "\<lambda>s' k. \<not> is_completed s' ! k \<and> \<not> in_ready_queue s' ! k \<and>
                 arrival_time (procs s' ! k) > current_time s \<and>
                 arrival_time (procs s' ! k) \<le> current_time s'"
  have s3: "s3 = admit ?Cw s2 n" by (simp add: s3_def rr_admit_window_admit)
  have Cw2: "?Cw s2 = W" by (simp add: s2_def s1_def W_def fun_eq_iff)
  have "rr_inv n (admit ?Cw s2 n) \<and>
        queue_list (q (admit ?Cw s2 n)) = queue_list (q s2) @ map int (filter (?Cw s2) [0..<n]) \<and>
        (\<forall>i. n \<le> i \<longrightarrow> ?Cw (admit ?Cw s2 n) i = ?Cw s2 i)"
  proof (rule admit_spec [OF inv2 order_refl])
    fix s' :: rr_state and j i :: nat
    assume "j \<noteq> i"
    then show "?Cw (rr_enqueue s' j) i = ?Cw s' i" by simp
  next
    fix i assume "i < n" "?Cw s2 i"
    then show "\<not> in_ready_queue s2 ! i \<and> arrival_time (procs s2 ! i) \<le> current_time s2 \<and>
               \<not> is_completed s2 ! i"
      by simp
  qed
  then have inv3: "rr_inv n s3"
    and ql3: "queue_list (q s3) = tl (queue_list (q s)) @ map int (filter W [0..<n])"
    unfolding s3 Cw2 by (simp_all add: s2_def s1_def ql1)
  have f3: "procs s3 = procs s" "current_time s3 = current_time s + exec_time"
    "completed s3 = completed s" "is_completed s3 = is_completed s"
    "remaining s3 = (remaining s)[idx := remaining s ! idx - exec_time]"
    unfolding s3 by (simp_all add: s2_def s1_def)
  have r3: "remaining s3 ! idx = remaining s ! idx - exec_time"
    using il by (simp add: f3)
  have slice: "rr_slice n tq s =
      (if remaining s3 ! idx = 0
       then s3\<lparr>is_completed := (is_completed s3)[idx := True],
               completed := completed s3 + 1,
               procs := (procs s3)[idx := (procs s3 ! idx)\<lparr>completion_time := current_time s3\<rparr>]\<rparr>
       else rr_enqueue s3 idx)"
  proof -
    have a: "nat ?item = idx" by (simp add: idx_def)
    have b: "s\<lparr>q := q1, in_ready_queue := (in_ready_queue s)[idx := False]\<rparr> = s1"
      by (simp add: s1_def)
    have c: "(if remaining s1 ! idx < tq then remaining s1 ! idx else tq) = exec_time"
      by (simp add: s1_def exec_time_def)
    have d: "s1\<lparr>current_time := wrap_int (current_time s1 + exec_time),
                remaining := (remaining s1)[idx := remaining s1 ! idx - exec_time]\<rparr> = s2"
      using wr by (simp add: s2_def s1_def)
    have e: "rr_admit_window (current_time s1) s2 n = s3"
      by (simp add: s3_def s1_def)
    show ?thesis
      unfolding rr_slice_def deq prod.case Let_def a b c d e ..
  qed
  have notin3: "int idx \<notin> set (queue_list (q s3))"
    using notin_tl nW idx unfolding ql3 by auto
  then have nfl3: "\<not> in_ready_queue s3 ! idx"
    using inv3 idx by (simp add: rr_inv_def)
  have arr3: "arrival_time (procs s3 ! idx) \<le> current_time s3 \<and> \<not> is_completed s3 ! idx"
    using ai ex nc by (simp add: f3)
  show "rr_inv n (rr_slice n tq s)"
  proof (cases "remaining s3 ! idx = 0")
    case True
    have "rr_inv n (s3\<lparr>is_completed := (is_completed s3)[idx := True],
               completed := completed s3 + 1,
               procs := (procs s3)[idx := (procs s3 ! idx)\<lparr>completion_time := current_time s3\<rparr>]\<rparr>)"
    proof -
      have c3: "\<forall>i<n. in_ready_queue s3 ! i \<longrightarrow>
                  arrival_time (procs s3 ! i) \<le> current_time s3 \<and>
                  \<not> (is_completed s3)[idx := True] ! i"
      proof (intro allI impI)
        fix i assume i: "i < n" and f: "in_ready_queue s3 ! i"
        with nfl3 have "i \<noteq> idx" by auto
        then have "(is_completed s3)[idx := True] ! i = is_completed s3 ! i" by simp
        with inv3 i f show "arrival_time (procs s3 ! i) \<le> current_time s3 \<and>
                  \<not> (is_completed s3)[idx := True] ! i"
          by (simp add: rr_inv_def)
      qed
      show ?thesis
        using inv3 c3 unfolding rr_inv_def by simp
    qed
    with True show ?thesis by (simp add: slice)
  next
    case False
    with rr_enqueue_inv [OF inv3 idx nfl3 arr3] show ?thesis by (simp add: slice)
  qed
  then have inv': "rr_inv n (rr_slice n tq s)" .
  show "current_time (rr_slice n tq s) = current_time s + exec_time"
    by (simp add: slice f3)
  show "remaining (rr_slice n tq s) = (remaining s)[idx := remaining s ! idx - exec_time]"
    by (simp add: slice f3)
  show "queue_list (q (rr_slice n tq s)) =
           tl (queue_list (q s)) @ map int (filter W [0..<n]) @
           (if remaining s ! idx - exec_time = 0 then [] else [int idx])"
  proof (cases "remaining s3 ! idx = 0")
    case True
    with r3 show ?thesis by (simp add: slice ql3)
  next
    case False
    with rr_enqueue_inv [OF inv3 idx nfl3 arr3] r3 show ?thesis by (simp add: slice ql3)
  qed
  then have ql': "queue_list (q (rr_slice n tq s)) =
           tl (queue_list (q s)) @ map int (filter W [0..<n]) @
           (if remaining s ! idx - exec_time = 0 then [] else [int idx])" .
  show "is_completed (rr_slice n tq s) =
           (if remaining s ! idx - exec_time = 0 then (is_completed s)[idx := True]
            else is_completed s)"
    using r3 by (simp add: slice f3)
  show "\<forall>i<n. in_ready_queue (rr_slice n tq s) ! i \<longleftrightarrow>
           (i \<noteq> idx \<and> in_ready_queue s ! i) \<or> W i \<or>
           (i = idx \<and> remaining s ! idx - exec_time \<noteq> 0)"
  proof (intro allI impI)
    fix i assume i: "i < n"
    have "in_ready_queue (rr_slice n tq s) ! i \<longleftrightarrow> int i \<in> set (queue_list (q (rr_slice n tq s)))"
      using inv' i by (simp add: rr_inv_def)
    also have "\<dots> \<longleftrightarrow> int i \<in> set (tl (queue_list (q s))) \<or> W i \<or>
          (i = idx \<and> remaining s ! idx - exec_time \<noteq> 0)"
      unfolding ql' using i by auto
    also have "int i \<in> set (tl (queue_list (q s))) \<longleftrightarrow> i \<noteq> idx \<and> in_ready_queue s ! i"
      using flags1 i il by (cases "i = idx") auto
    finally show "in_ready_queue (rr_slice n tq s) ! i \<longleftrightarrow>
           (i \<noteq> idx \<and> in_ready_queue s ! i) \<or> W i \<or>
           (i = idx \<and> remaining s ! idx - exec_time \<noteq> 0)" .
  qed
  show "completed (rr_slice n tq s) =
           (if remaining s ! idx - exec_time = 0 then completed s + 1 else completed s)"
    using r3 by (simp add: slice f3)
  show "procs (rr_slice n tq s) =
           (if remaining s ! idx - exec_time = 0
            then (procs s)[idx := (procs s ! idx)\<lparr>completion_time := current_time s + exec_time\<rparr>]
            else procs s)"
    using r3 by (simp add: slice f3)
qed

subsection \<open>The idle branch\<close>

lemma rr_idle_spec:
  assumes inv: "rr_inv n s" and em: "is_empty (q s)"
    and ne: "rr_next_arrival_scan s n \<noteq> INT_MAX"
  defines "s' \<equiv> rr_admit_at (s\<lparr>current_time := rr_next_arrival_scan s n\<rparr>) n"
  shows "rr_inv n s'"
    and "queue_list (q s') =
           map int (filter (\<lambda>i. \<not> is_completed s ! i \<and>
                                arrival_time (procs s ! i) = rr_next_arrival_scan s n) [0..<n])"
    and "procs s' = procs s" "remaining s' = remaining s" "is_completed s' = is_completed s"
      "completed s' = completed s" "current_time s' = rr_next_arrival_scan s n"
    and "\<forall>i<n. in_ready_queue s' ! i \<longleftrightarrow>
           \<not> is_completed s ! i \<and> arrival_time (procs s ! i) = rr_next_arrival_scan s n"
proof -
  let ?na = "rr_next_arrival_scan s n"
  let ?s1 = "s\<lparr>current_time := ?na\<rparr>"
  let ?C = "\<lambda>s k. \<not> is_completed s ! k \<and> arrival_time (procs s ! k) = current_time s \<and>
                 \<not> in_ready_queue s ! k"
  from em have qe: "queue_list (q s) = []" by (simp add: is_empty_queue_list)
  with inv have nof: "\<forall>i<n. \<not> in_ready_queue s ! i" by (simp add: rr_inv_def)
  from rr_next_arrival_scan_cases [of s n] ne obtain j where
    j: "j < n" "arrival_time (procs s ! j) > current_time s" "?na = arrival_time (procs s ! j)"
    by auto
  have "0 \<le> ?na" "?na + rr_rest n s \<le> INT_MAX"
    using inv j by (simp_all add: rr_inv_def)
  then have inv1: "rr_inv n ?s1"
    using inv nof unfolding rr_inv_def by simp
  have s': "s' = admit ?C ?s1 n" by (simp add: s'_def rr_admit_at_admit)
  have "rr_inv n (admit ?C ?s1 n) \<and>
        queue_list (q (admit ?C ?s1 n)) = queue_list (q ?s1) @ map int (filter (?C ?s1) [0..<n]) \<and>
        (\<forall>i. n \<le> i \<longrightarrow> ?C (admit ?C ?s1 n) i = ?C ?s1 i)"
  proof (rule admit_spec [OF inv1 order_refl])
    fix s' :: rr_state and j i :: nat
    assume "j \<noteq> i"
    then show "?C (rr_enqueue s' j) i = ?C s' i" by simp
  next
    fix i assume "i < n" "?C ?s1 i"
    then show "\<not> in_ready_queue ?s1 ! i \<and> arrival_time (procs ?s1 ! i) \<le> current_time ?s1 \<and>
               \<not> is_completed ?s1 ! i"
      by simp
  qed
  then have i': "rr_inv n s'"
    and ql: "queue_list (q s') = map int (filter (?C ?s1) [0..<n])"
    unfolding s' by (simp_all add: qe)
  show "rr_inv n s'" by fact
  have "filter (?C ?s1) [0..<n] =
        filter (\<lambda>i. \<not> is_completed s ! i \<and> arrival_time (procs s ! i) = ?na) [0..<n]"
    by (rule filter_cong) (use nof in auto)
  with ql show ql': "queue_list (q s') =
           map int (filter (\<lambda>i. \<not> is_completed s ! i \<and> arrival_time (procs s ! i) = ?na) [0..<n])"
    by simp
  show "procs s' = procs s" "remaining s' = remaining s" "is_completed s' = is_completed s"
      "completed s' = completed s" "current_time s' = ?na"
    unfolding s' by simp_all
  show "\<forall>i<n. in_ready_queue s' ! i \<longleftrightarrow>
           \<not> is_completed s ! i \<and> arrival_time (procs s ! i) = ?na"
  proof (intro allI impI)
    fix i assume i: "i < n"
    have "in_ready_queue s' ! i \<longleftrightarrow> int i \<in> set (queue_list (q s'))"
      using i' i by (simp add: rr_inv_def)
    also have "\<dots> \<longleftrightarrow> \<not> is_completed s ! i \<and> arrival_time (procs s ! i) = ?na"
      unfolding ql' using i by auto
    finally show "in_ready_queue s' ! i \<longleftrightarrow>
           \<not> is_completed s ! i \<and> arrival_time (procs s ! i) = ?na" .
  qed
qed

subsection \<open>The invariant of the queue holds throughout a run\<close>

lemma rr_iteration_inv:
  assumes "rr_inv n s" "0 < tq" "rr_iteration n tq s = Next s'"
  shows "rr_inv n s'"
proof (cases "is_empty (q s)")
  case True
  with assms(3) have "s' = rr_admit_at (s\<lparr>current_time := rr_next_arrival_scan s n\<rparr>) n"
    by (simp add: rr_iteration_def Let_def split: if_splits)
  moreover from True assms(3) have "rr_next_arrival_scan s n \<noteq> INT_MAX"
    by (simp add: rr_iteration_def Let_def split: if_splits)
  ultimately show ?thesis using rr_idle_spec(1) [OF assms(1) True] by simp
next
  case False
  with assms(3) have "s' = rr_slice n tq s" by (simp add: rr_iteration_def)
  with rr_slice_spec(5) [OF assms(1) False assms(2)] show ?thesis by simp
qed

lemma rr_steps_inv:
  assumes "rr_inv n s0" "0 < tq" "rr_steps n tq k s0 = Some s"
  shows "rr_inv n s"
  using assms(3)
proof (induction k arbitrary: s)
  case 0
  with assms(1) show ?case by simp
next
  case (Suc k)
  then obtain s1 where s1: "rr_steps n tq k s0 = Some s1" and it: "rr_iteration n tq s1 = Next s"
    by (auto split: option.splits if_splits flow.splits)
  from rr_iteration_inv [OF Suc.IH [OF s1] assms(2) it] show ?case .
qed

lemma rr_init_remaining_length [simp]:
  "length (rr_init_remaining ps rem k) = length rem"
  by (induction k) simp_all

lemma rr_init_remaining_nth:
  "k \<le> length rem \<Longrightarrow> i < k \<Longrightarrow> rr_init_remaining ps rem k ! i = burst_time (ps ! i)"
  by (induction k) (auto simp: nth_list_update less_Suc_eq)

lemma queue_list_init [simp]: "queue_list (init_queue qu) = []"
  by (simp add: queue_list_def queue_len_def init_queue_def)

subsection \<open>The sort keeps the processes\<close>

lemma bubble_inner_mset:
  "j < length xs \<Longrightarrow> mset (bubble_inner swap xs j) = mset xs"
proof (induction j)
  case 0
  then show ?case by simp
next
  case (Suc j)
  then have IH: "mset (bubble_inner swap xs j) = mset xs" by simp
  have "Suc j < length (bubble_inner swap xs j)" "j < length (bubble_inner swap xs j)"
    using Suc.prems by simp_all
  from mset_swap [OF this] IH show ?case
    by (simp add: Let_def)
qed

lemma bubble_inner_drop:
  "j < m \<Longrightarrow> drop m (bubble_inner swap xs j) = drop m xs"
  by (induction j) (simp_all add: Let_def)

lemma bubble_outer_mset:
  "m \<le> length xs \<Longrightarrow> k < m \<Longrightarrow> mset (bubble_outer swap xs m k) = mset xs"
proof (induction k)
  case 0
  then show ?case by simp
next
  case (Suc k)
  then have "m - 1 - k < length (bubble_outer swap xs m k)" by simp
  from bubble_inner_mset [OF this] Suc show ?case by simp
qed

lemma bubble_outer_drop:
  "k < m \<Longrightarrow> drop m (bubble_outer swap xs m k) = drop m xs"
proof (induction k)
  case 0
  then show ?case by simp
next
  case (Suc k)
  have "drop m (bubble_inner swap (bubble_outer swap xs m k) (m - 1 - k))
        = drop m (bubble_outer swap xs m k)"
    by (rule bubble_inner_drop) (use Suc.prems in simp)
  with Suc show ?case by simp
qed

lemma bubble_sort_take_mset:
  assumes "m \<le> length xs"
  shows "mset (take m (bubble_sort swap xs m)) = mset (take m xs)"
proof (cases "m = 0")
  case True
  then show ?thesis by simp
next
  case False
  then have k: "m - 1 < m" by simp
  let ?ys = "bubble_sort swap xs m"
  have "mset ?ys = mset xs" "drop m ?ys = drop m xs"
    using bubble_outer_mset [OF assms k] bubble_outer_drop [OF k]
    by (simp_all add: bubble_sort_def)
  moreover have "mset ?ys = mset (take m ?ys) + mset (drop m ?ys)"
    "mset xs = mset (take m xs) + mset (drop m xs)"
    by (simp_all flip: mset_append)
  ultimately show ?thesis by simp
qed

lemma bubble_sort_take_sum:
  fixes f :: "'a \<Rightarrow> int"
  assumes "m \<le> length xs"
  shows "sum_list (map f (take m (bubble_sort swap xs m))) = sum_list (map f (take m xs))"
proof -
  have "sum_list (map f (take m (bubble_sort swap xs m)))
      = sum_mset (image_mset f (mset (take m (bubble_sort swap xs m))))"
    by (simp flip: sum_mset_sum_list)
  also have "\<dots> = sum_mset (image_mset f (mset (take m xs)))"
    by (simp only: bubble_sort_take_mset [OF assms])
  also have "\<dots> = sum_list (map f (take m xs))"
    by (simp flip: sum_mset_sum_list)
  finally show ?thesis .
qed

lemma clock_fits_reset: "clock_fits (reset_process_states ctx) = clock_fits ctx"
proof -
  have "map burst_time (take n (map reset_process ps)) = map burst_time (take n ps)" for n ps
    by (simp add: take_map reset_process_def)
  then have t: "total_burst (reset_process_states ctx) = total_burst ctx"
    by (simp add: total_burst_def reset_process_states_def)
  show ?thesis
    unfolding clock_fits_def t
    by (simp add: reset_process_states_def take_map list_all_iff reset_process_def)
qed

subsection \<open>The state at the head of the loop\<close>

text \<open>The state before the arrivals at time 0 are enqueued.\<close>

lemma rr_start_eq:
  "rr_start ctx =
     rr_admit_zero
       \<lparr>procs = bubble_sort rr_swap (processes ctx) (nat (num_processes ctx)),
        current_time = 0, completed = 0,
        remaining = rr_init_remaining (bubble_sort rr_swap (processes ctx) (nat (num_processes ctx)))
                      (replicate (length (processes ctx)) 0) (nat (num_processes ctx)),
        is_completed = replicate (length (processes ctx)) False,
        in_ready_queue = replicate (length (processes ctx)) False,
        q = init_queue \<lparr>items = replicate (nat QUEUE_MAX) 0, front = 0, rear = 0\<rparr>,
        dropped = 0\<rparr>
       (nat (num_processes ctx))"
  by (simp add: rr_start_def Let_def)

lemma rr_start_spec:
  assumes len: "nat (num_processes ctx) \<le> length (processes ctx)"
    and cap: "num_processes ctx \<le> QUEUE_MAX"
    and nonneg: "\<forall>i<nat (num_processes ctx). 0 \<le> burst_time (processes ctx ! i)"
    and cf: "clock_fits ctx"
  defines "n \<equiv> nat (num_processes ctx)"
  defines "ps \<equiv> bubble_sort rr_swap (processes ctx) n"
  shows "rr_inv n (rr_start ctx)"
    and "procs (rr_start ctx) = ps" "current_time (rr_start ctx) = 0" "completed (rr_start ctx) = 0"
    and "\<forall>i<n. remaining (rr_start ctx) ! i = burst_time (ps ! i)"
    and "\<forall>i<n. \<not> is_completed (rr_start ctx) ! i"
    and "\<forall>i<n. in_ready_queue (rr_start ctx) ! i \<longleftrightarrow> arrival_time (ps ! i) = 0"
proof -
  let ?rem = "rr_init_remaining ps (replicate (length (processes ctx)) 0) n"
  let ?s0 = "\<lparr>procs = ps, current_time = 0, completed = 0, remaining = ?rem,
        is_completed = replicate (length (processes ctx)) False,
        in_ready_queue = replicate (length (processes ctx)) False,
        q = init_queue \<lparr>items = replicate (nat QUEUE_MAX) 0, front = 0, rear = 0\<rparr>,
        dropped = 0\<rparr>"
  let ?C = "\<lambda>s k. arrival_time (procs s ! k) = 0"
  have st: "rr_start ctx = admit ?C ?s0 n"
    unfolding rr_start_eq rr_admit_zero_admit n_def ps_def ..
  have len': "n \<le> length (processes ctx)" using len by (simp add: n_def)
  have nn: "\<forall>i<n. 0 \<le> burst_time (ps ! i)"
    unfolding ps_def using bubble_sort_all [where P = "\<lambda>p. 0 \<le> burst_time p", OF _ len'] nonneg
    by (simp add: n_def)
  have remi: "\<forall>i<n. ?rem ! i = burst_time (ps ! i)"
    using len' by (simp add: rr_init_remaining_nth)
  have w0: "wfq (init_queue \<lparr>items = replicate (nat QUEUE_MAX) 0, front = 0, rear = 0\<rparr>)"
    by (simp add: wfq_def init_queue_def)
  have capn: "int n \<le> QUEUE_MAX" using cap by (simp add: n_def QUEUE_MAX_def)
  have lps: "n \<le> length ps" using len' by (simp add: ps_def)
  have "rr_rest n ?s0 = (\<Sum>i<n. burst_time (ps ! i))"
    unfolding rr_rest_def by (rule sum.cong) (use remi in simp_all)
  also have "\<dots> = sum_list (map burst_time (take n ps))"
    using sum_list_take_nth [OF lps, of burst_time] by simp
  also have "\<dots> = total_burst ctx"
    unfolding ps_def total_burst_def n_def [symmetric] by (rule bubble_sort_take_sum [OF len'])
  finally have rest0: "rr_rest n ?s0 = total_burst ctx" .
  have tb: "total_burst ctx \<le> INT_MAX" using cf by (simp add: clock_fits_def)
  have "\<forall>i<n. arrival_time (processes ctx ! i) + total_burst ctx \<le> INT_MAX"
    using cf len' by (auto simp: clock_fits_def list_all_length n_def)
  then have arr0: "\<forall>i<n. arrival_time (ps ! i) + total_burst ctx \<le> INT_MAX"
    unfolding ps_def
    using bubble_sort_all [where P = "\<lambda>p. arrival_time p + total_burst ctx \<le> INT_MAX", OF _ len']
    by simp
  have inv0: "rr_inv n ?s0"
    unfolding rr_inv_def rest0 using len' w0 capn nn remi tb arr0 by (simp add: ps_def)
  have "rr_inv n (admit ?C ?s0 n) \<and>
        queue_list (q (admit ?C ?s0 n)) = queue_list (q ?s0) @ map int (filter (?C ?s0) [0..<n]) \<and>
        (\<forall>i. n \<le> i \<longrightarrow> ?C (admit ?C ?s0 n) i = ?C ?s0 i)"
  proof (rule admit_spec [OF inv0 order_refl])
    fix s' :: rr_state and j i :: nat
    show "?C (rr_enqueue s' j) i = ?C s' i" by simp
  next
    fix i assume "i < n" "?C ?s0 i"
    with len' show "\<not> in_ready_queue ?s0 ! i \<and> arrival_time (procs ?s0 ! i) \<le> current_time ?s0 \<and>
                    \<not> is_completed ?s0 ! i"
      by simp
  qed
  then have inv: "rr_inv n (rr_start ctx)"
    and ql: "queue_list (q (rr_start ctx)) = map int (filter (\<lambda>k. arrival_time (ps ! k) = 0) [0..<n])"
    unfolding st by simp_all
  show "rr_inv n (rr_start ctx)" by fact
  show "procs (rr_start ctx) = ps" "current_time (rr_start ctx) = 0" "completed (rr_start ctx) = 0"
    unfolding st by simp_all
  show "\<forall>i<n. remaining (rr_start ctx) ! i = burst_time (ps ! i)"
    unfolding st using remi by simp
  show "\<forall>i<n. \<not> is_completed (rr_start ctx) ! i"
    unfolding st using len' by simp
  show "\<forall>i<n. in_ready_queue (rr_start ctx) ! i \<longleftrightarrow> arrival_time (ps ! i) = 0"
  proof (intro allI impI)
    fix i assume i: "i < n"
    have "in_ready_queue (rr_start ctx) ! i \<longleftrightarrow> int i \<in> set (queue_list (q (rr_start ctx)))"
      using inv i by (simp add: rr_inv_def)
    also have "\<dots> \<longleftrightarrow> arrival_time (ps ! i) = 0"
      unfolding ql using i by auto
    finally show "in_ready_queue (rr_start ctx) ! i \<longleftrightarrow> arrival_time (ps ! i) = 0" .
  qed
qed

lemma rr_fits_reset:
  assumes "rr_fits ctx"
  shows "nat (num_processes (reset_process_states ctx)) \<le> length (processes (reset_process_states ctx))"
    and "num_processes (reset_process_states ctx) \<le> QUEUE_MAX"
    and "\<forall>i<nat (num_processes (reset_process_states ctx)).
           0 \<le> burst_time (processes (reset_process_states ctx) ! i)"
  using assms
  by (auto simp: rr_fits_def reset_process_states_def reset_process_def list_all_length)

lemma rr_fits_start:
  assumes "rr_fits ctx" "clock_fits ctx"
  shows "rr_inv (nat (num_processes ctx)) (rr_start (reset_process_states ctx))"
proof -
  have "clock_fits (reset_process_states ctx)" using assms(2) by (simp add: clock_fits_reset)
  from rr_start_spec(1) [OF rr_fits_reset [OF assms(1)] this] show ?thesis
    by (simp add: reset_process_states_def)
qed

lemma distinct_bounded_length_le:
  assumes "distinct xs" "\<forall>x\<in>set xs. 0 \<le> x \<and> nat x < n"
  shows "length xs \<le> n"
proof -
  have "set xs \<subseteq> int ` {..<n}"
  proof
    fix x assume x: "x \<in> set xs"
    with assms(2) have "0 \<le> x" "nat x \<in> {..<n}" by auto
    then have "int (nat x) \<in> int ` {..<n}" by (intro imageI)
    with \<open>0 \<le> x\<close> show "x \<in> int ` {..<n}" by simp
  qed
  then have "card (set xs) \<le> card (int ` {..<n})"
    by (intro card_mono) auto
  also have "\<dots> = n" by (simp add: card_image)
  finally show ?thesis using assms(1) by (simp add: distinct_card)
qed

text \<open>
  Claim C8, as amended. Take a run of \<^verbatim>\<open>round_robin\<close> with a positive quantum on an input
  that fits (count within the process array, no negative burst) with
  \<open>num_processes < QUEUE_MAX\<close>, on which the clock stays within the range of \<^verbatim>\<open>int\<close> (the sum
  of the bursts, added to 0 or to any arrival time, is at most \<open>INT_MAX\<close>), and any state \<open>s\<close>
  at the head of its main loop. Then \<open>in_ready_queue[i]\<close> is true exactly when index \<open>i\<close> is
  stored in the queue, no index is stored twice, the queue holds at most \<open>num_processes\<close>
  entries and is not full, and no call of \<^verbatim>\<open>enqueue\<close> so far (in the loop that enqueues the
  arrivals at 0 or in any pass through the body) has taken the branch that drops the entry: the
  counter of such calls is 0. The amendment is the condition on the clock.
\<close>

theorem rr_queue_flags_invariant:
  assumes "rr_fits ctx" "clock_fits ctx" "num_processes ctx < QUEUE_MAX" "0 < tq"
    and "rr_steps (nat (num_processes ctx)) tq k (rr_start (reset_process_states ctx)) = Some s"
  shows "(\<forall>i<nat (num_processes ctx). in_ready_queue s ! i \<longleftrightarrow> int i \<in> set (queue_list (q s))) \<and>
         distinct (queue_list (q s)) \<and>
         length (queue_list (q s)) \<le> nat (num_processes ctx) \<and>
         \<not> queue_full (q s) \<and> dropped s = 0"
proof -
  let ?n = "nat (num_processes ctx)"
  have inv: "rr_inv ?n s"
    using rr_steps_inv [OF rr_fits_start [OF assms(1,2)] assms(4,5)] .
  then have flags: "\<forall>i<?n. in_ready_queue s ! i \<longleftrightarrow> int i \<in> set (queue_list (q s))"
    and dist: "distinct (queue_list (q s))"
    and sub: "\<forall>x\<in>set (queue_list (q s)). 0 \<le> x \<and> nat x < ?n"
    and w: "wfq (q s)" and dr: "dropped s = 0"
    by (simp_all add: rr_inv_def)
  have le: "length (queue_list (q s)) \<le> ?n"
    using distinct_bounded_length_le [OF dist sub] .
  have "queue_len (q s) \<noteq> nat QUEUE_MAX"
    using le assms(3) by (simp add: QUEUE_MAX_def)
  then have "\<not> queue_full (q s)" using queue_full_iff [OF w] by simp
  with flags dist le dr show ?thesis by simp
qed

theorem rr_queue_flags_invariant_witness:
  "rr_fits rr_example \<and> clock_fits rr_example \<and> num_processes rr_example < QUEUE_MAX \<and>
   (0::int) < 2 \<and>
   rr_steps (nat (num_processes rr_example)) 2 3 (rr_start (reset_process_states rr_example))
     = Some (the (rr_steps 2 2 3 (rr_start (reset_process_states rr_example)))) \<and>
   queue_list (q (the (rr_steps 2 2 3 (rr_start (reset_process_states rr_example))))) = [1, 0] \<and>
   distinct (queue_list (q (the (rr_steps 2 2 3 (rr_start (reset_process_states rr_example)))))) \<and>
   dropped (the (rr_steps 2 2 3 (rr_start (reset_process_states rr_example)))) = 0"
proof -
  let ?s = "the (rr_steps 2 2 3 (rr_start (reset_process_states rr_example)))"
  have h1: "rr_fits rr_example" by code_simp
  have hc: "clock_fits rr_example" by code_simp
  have h2: "num_processes rr_example < QUEUE_MAX" by code_simp
  have h3: "(0::int) < 2" by simp
  have h4: "rr_steps (nat (num_processes rr_example)) 2 3 (rr_start (reset_process_states rr_example))
     = Some ?s" by code_simp
  have ev: "queue_list (q ?s) = [1, 0]" by code_simp
  from rr_queue_flags_invariant [OF h1 hc h2 h3 h4]
  have "distinct (queue_list (q ?s))" "dropped ?s = 0" by simp_all
  with h1 hc h2 h3 h4 ev show ?thesis by blast
qed

text \<open>
  The claim as stated fails on a run in which the clock passes \<open>INT_MAX\<close>. Three processes
  arrive at 0 with bursts 2000000000, 2000000000 and 2100000000, and the quantum is 2000000000
  (the input fits, and 3 is below \<open>QUEUE_MAX\<close>). The first slice ends at 2000000000; the second
  adds 2000000000 to it, which in \<^verbatim>\<open>int\<close> is -294967296. The third slice starts there with
  the queue \<open>[2]\<close>: index 2 is taken off and runs to 1705032704 with 100000000 units left; its
  arrival time 0 lies in the window \<open>(-294967296, 1705032704]\<close> and its flag is off, so the
  window loop enqueues it, and so does the re-enqueue that follows: at the head of the loop the
  queue holds index 2 twice.
\<close>

theorem rr_queue_duplicate_counterexample:
  "rr_fits rr_wrap_twice \<and> num_processes rr_wrap_twice < QUEUE_MAX \<and>
   (0::int) < 2000000000 \<and>
   map_option rr_view (rr_steps 3 2000000000 1 (rr_start (reset_process_states rr_wrap_twice)))
     = Some (2000000000, [1, 2], [0, 2000000000, 2100000000], 1) \<and>
   map_option rr_view (rr_steps 3 2000000000 2 (rr_start (reset_process_states rr_wrap_twice)))
     = Some (- 294967296, [2], [0, 0, 2100000000], 2) \<and>
   map_option rr_view (rr_steps 3 2000000000 3 (rr_start (reset_process_states rr_wrap_twice)))
     = Some (1705032704, [2, 2], [0, 0, 100000000], 2) \<and>
   \<not> distinct [2, 2 :: int]"
  by code_simp

lemma rr_flags_after_dequeue:
  assumes inv: "rr_inv n s" and ne: "\<not> is_empty (q s)" and i: "i < n"
  shows "(in_ready_queue s)[nat (hd (queue_list (q s))) := False] ! i \<longleftrightarrow>
         int i \<in> set (tl (queue_list (q s)))"
proof -
  let ?idx = "nat (hd (queue_list (q s)))"
  from inv have len: "n \<le> length (procs s)" "length (in_ready_queue s) = length (procs s)"
    and sub: "\<forall>x\<in>set (queue_list (q s)). 0 \<le> x \<and> nat x < n"
    and dist: "distinct (queue_list (q s))"
    and flags: "\<forall>i<n. in_ready_queue s ! i \<longleftrightarrow> int i \<in> set (queue_list (q s))"
    by (simp_all add: rr_inv_def)
  from ne obtain x xs where Q: "queue_list (q s) = x # xs"
    by (cases "queue_list (q s)") (auto simp: is_empty_queue_list)
  with sub have x: "0 \<le> x" "nat x < n" by auto
  have idx: "?idx = nat x" using Q by simp
  show ?thesis
  proof (cases "i = nat x")
    case True
    then have "int i = x" using x by simp
    with dist Q have "int i \<notin> set xs" by auto
    moreover have "nat x < length (in_ready_queue s)" using x len by simp
    ultimately show ?thesis unfolding idx Q using True by simp
  next
    case False
    then have "int i \<noteq> x" by auto
    with flags i Q False show ?thesis unfolding idx by simp
  qed
qed

text \<open>
  Claim C3, as amended. Take a run of \<^verbatim>\<open>round_robin\<close> with a positive quantum on an input
  that fits and on which the clock stays within the range of \<^verbatim>\<open>int\<close> (the sum of the bursts,
  added to 0 or to any arrival time, is at most \<open>INT_MAX\<close>), and
  a pass through the body of the main loop that executes a slice: a state \<open>s\<close> at the head of
  the loop with \<open>completed < n\<close> and a queue that is not empty. With \<open>idx\<close> the front of the
  queue, \<open>exec_time = min(remaining_time[idx], time_quantum)\<close> and
  \<open>new_time = start_time + exec_time\<close>, the pass leaves the clock at \<open>new_time\<close> and the queue as:
  what was behind the front, then (in index order) every process that is not completed and not in
  that rest of the queue and whose arrival time lies in \<open>(start_time, new_time]\<close>, then, only if
  its remaining time is still above 0, the executed process. If its remaining time has reached
  0 it is marked completed, its completion time is \<open>new_time\<close>, and it is not in the queue; and
  in the new state no completed process is in the queue, so (the new state being again a state
  at the head of the loop) a completed process is never enqueued again. The amendment is the
  condition on the clock.
\<close>

theorem rr_slice_order:
  assumes "rr_fits ctx" "clock_fits ctx" "0 < tq"
    and "rr_steps (nat (num_processes ctx)) tq k (rr_start (reset_process_states ctx)) = Some s"
    and "completed s < nat (num_processes ctx)" "\<not> is_empty (q s)"
  shows "let n = nat (num_processes ctx);
             idx = nat (hd (queue_list (q s)));
             exec_time = (if remaining s ! idx < tq then remaining s ! idx else tq);
             start_time = current_time s;
             new_time = start_time + exec_time;
             s' = rr_slice n tq s
         in rr_iteration n tq s = Next s' \<and>
            rr_steps n tq (Suc k) (rr_start (reset_process_states ctx)) = Some s' \<and>
            current_time s' = new_time \<and>
            remaining s' ! idx = remaining s ! idx - exec_time \<and>
            queue_list (q s') =
              tl (queue_list (q s)) @
              map int (filter (\<lambda>i. \<not> is_completed s ! i \<and>
                                     int i \<notin> set (tl (queue_list (q s))) \<and>
                                     start_time < arrival_time (procs s ! i) \<and>
                                     arrival_time (procs s ! i) \<le> new_time) [0..<n]) @
              (if remaining s' ! idx > 0 then [int idx] else []) \<and>
            (remaining s' ! idx > 0 \<or> remaining s' ! idx = 0) \<and>
            (remaining s' ! idx = 0 \<longrightarrow>
               is_completed s' ! idx \<and> completion_time (procs s' ! idx) = new_time \<and>
               int idx \<notin> set (queue_list (q s'))) \<and>
            (\<forall>i<n. is_completed s' ! i \<longrightarrow> int i \<notin> set (queue_list (q s')))"
proof -
  define n where "n = nat (num_processes ctx)"
  define idx where "idx = nat (hd (queue_list (q s)))"
  define s' where "s' = rr_slice n tq s"
  let ?e = "if remaining s ! idx < tq then remaining s ! idx else tq"
  let ?W = "\<lambda>i. \<not> is_completed s ! i \<and> \<not> (in_ready_queue s)[idx := False] ! i \<and>
                 arrival_time (procs s ! i) > current_time s \<and>
                 arrival_time (procs s ! i) \<le> current_time s + ?e"
  let ?V = "\<lambda>i. \<not> is_completed s ! i \<and> int i \<notin> set (tl (queue_list (q s))) \<and>
                 current_time s < arrival_time (procs s ! i) \<and>
                 arrival_time (procs s ! i) \<le> current_time s + ?e"
  have inv: "rr_inv n s"
    using rr_steps_inv [OF rr_fits_start [OF assms(1,2)] assms(3,4)] by (simp add: n_def)
  note spec = rr_slice_spec [OF inv assms(6) assms(3), folded idx_def s'_def]
  have idx: "idx < n" using spec(1) .
  have len: "n \<le> length (procs s)" "length (remaining s) = length (procs s)"
      "length (is_completed s) = length (procs s)"
    using inv by (simp_all add: rr_inv_def)
  have il: "idx < length (procs s)" "idx < length (remaining s)" "idx < length (is_completed s)"
    using idx len by simp_all
  have it: "rr_iteration n tq s = Next s'"
    using assms(6) by (simp add: rr_iteration_def s'_def)
  have st: "rr_steps n tq (Suc k) (rr_start (reset_process_states ctx)) = Some s'"
    using assms(4,5) it by (simp add: n_def)
  have tm: "current_time s' = current_time s + ?e" using spec(6) .
  have r': "remaining s' ! idx = remaining s ! idx - ?e"
    using spec(7) il by simp
  have rge: "0 \<le> remaining s ! idx - ?e"
    using inv idx by (simp add: rr_inv_def)
  have WV: "filter ?W [0..<n] = filter ?V [0..<n]"
  proof (rule filter_cong [OF refl])
    fix i assume "i \<in> set [0..<n]"
    then have "i < n" by simp
    from rr_flags_after_dequeue [OF inv assms(6) this]
    show "?W i = ?V i" by (simp add: idx_def)
  qed
  have "queue_list (q s') =
              tl (queue_list (q s)) @ map int (filter ?W [0..<n]) @
              (if remaining s ! idx - ?e = 0 then [] else [int idx])"
    using spec(8) .
  then have ql: "queue_list (q s') =
              tl (queue_list (q s)) @ map int (filter ?V [0..<n]) @
              (if remaining s' ! idx > 0 then [int idx] else [])"
    using rge unfolding WV r' by (simp add: less_le)
  have dich: "remaining s' ! idx > 0 \<or> remaining s' ! idx = 0"
    using rge r' by linarith
  have inv': "rr_inv n s'" using spec(5) .
  have nocomp: "\<forall>i<n. is_completed s' ! i \<longrightarrow> int i \<notin> set (queue_list (q s'))"
    using inv' by (auto simp: rr_inv_def)
  have fin: "is_completed s' ! idx \<and> completion_time (procs s' ! idx) = current_time s + ?e \<and>
             int idx \<notin> set (queue_list (q s'))"
    if z: "remaining s' ! idx = 0"
  proof -
    from z r' have z': "remaining s ! idx - ?e = 0" by simp
    have "is_completed s' ! idx" using spec(9) z' il by simp
    moreover have "completion_time (procs s' ! idx) = current_time s + ?e"
      using spec(11) z' il by simp
    ultimately show ?thesis using nocomp idx by simp
  qed
  from it st tm r' ql dich fin nocomp show ?thesis
    unfolding Let_def n_def [symmetric] idx_def [symmetric] s'_def [symmetric]
    by simp
qed

theorem rr_slice_order_witness:
  "rr_fits rr_example \<and> clock_fits rr_example \<and> (0::int) < 2 \<and>
   rr_steps (nat (num_processes rr_example)) 2 0 (rr_start (reset_process_states rr_example))
     = Some (rr_start (reset_process_states rr_example)) \<and>
   completed (rr_start (reset_process_states rr_example)) < nat (num_processes rr_example) \<and>
   \<not> is_empty (q (rr_start (reset_process_states rr_example))) \<and>
   rr_iteration 2 2 (rr_start (reset_process_states rr_example))
     = Next (rr_slice 2 2 (rr_start (reset_process_states rr_example))) \<and>
   queue_list (q (rr_slice 2 2 (rr_start (reset_process_states rr_example)))) = [1, 0]"
proof -
  let ?s = "rr_start (reset_process_states rr_example)"
  have h1: "rr_fits rr_example" by code_simp
  have hc: "clock_fits rr_example" by code_simp
  have h2: "(0::int) < 2" by simp
  have h3: "rr_steps (nat (num_processes rr_example)) 2 0 ?s = Some ?s" by simp
  have h4: "completed ?s < nat (num_processes rr_example)" by code_simp
  have h5: "\<not> is_empty (q ?s)" by code_simp
  have n: "nat (num_processes rr_example) = 2" by code_simp
  have ev: "queue_list (q (rr_slice 2 2 ?s)) = [1, 0]" by code_simp
  from rr_slice_order [OF h1 hc h2 h3 h4 h5]
  have "rr_iteration 2 2 ?s = Next (rr_slice 2 2 ?s)"
    unfolding Let_def n by blast
  with h1 hc h2 h3 h4 h5 ev show ?thesis by blast
qed

text \<open>
  The claim as stated fails on a run in which the clock passes \<open>INT_MAX\<close>. Three processes
  arrive at 0 with bursts 2000000000, 2000000000 and 1000000000, and the quantum is 2000000000.
  The second slice adds 2000000000 to the clock value 2000000000, which in \<^verbatim>\<open>int\<close> is
  -294967296. The third slice starts there with the queue \<open>[2]\<close>: index 2 is taken off and runs
  its 1000000000 units, to 705032704. Its arrival time 0 lies in the window
  \<open>(-294967296, 705032704]\<close>, it is not in the queue and it is not marked completed yet, so the
  window loop enqueues it; then its remaining time is found to be 0 and it is marked completed.
  The process whose remaining time reached 0 is in the queue again after the slice.
\<close>

theorem rr_completed_enqueued_counterexample:
  "rr_fits rr_wrap_done \<and> (0::int) < 2000000000 \<and>
   map_option rr_view (rr_steps 3 2000000000 1 (rr_start (reset_process_states rr_wrap_done)))
     = Some (2000000000, [1, 2], [0, 2000000000, 1000000000], 1) \<and>
   map_option rr_view (rr_steps 3 2000000000 2 (rr_start (reset_process_states rr_wrap_done)))
     = Some (- 294967296, [2], [0, 0, 1000000000], 2) \<and>
   map_option rr_view (rr_steps 3 2000000000 3 (rr_start (reset_process_states rr_wrap_done)))
     = Some (705032704, [2], [0, 0, 0], 3) \<and>
   map_option is_completed (rr_steps 3 2000000000 3 (rr_start (reset_process_states rr_wrap_done)))
     = Some [True, True, True] \<and>
   (2::int) \<in> set [2]"
  by code_simp

text \<open>
  Claim C4. The round robin scenario with quantum 2: P1 (arrival 0, burst 5) is at index 0 and
  P2 (arrival 1, burst 3) at index 1. The states at the head of the main loop show, in turn, the
  clock, the queue, the remaining times and the counter of completed processes: P1 runs from 0
  to 2 and the queue is then P2, P1 (P2 was enqueued before P1 was enqueued again); P2 runs from 2
  to 4; P1 from 4 to 6; P2 from 6 to 7 and completes; P1 from 7 to 8 and completes; the loop ends
  there. The completion times are 8 for P1 and 7 for P2.
\<close>

theorem rr_scenario_trace:
  "map pid (procs (rr_start (reset_process_states rr_example))) = [1, 2] \<and>
   map_option rr_view (rr_steps 2 2 0 (rr_start (reset_process_states rr_example)))
     = Some (0, [0], [5, 3], 0) \<and>
   map_option rr_view (rr_steps 2 2 1 (rr_start (reset_process_states rr_example)))
     = Some (2, [1, 0], [3, 3], 0) \<and>
   map_option rr_view (rr_steps 2 2 2 (rr_start (reset_process_states rr_example)))
     = Some (4, [0, 1], [3, 1], 0) \<and>
   map_option rr_view (rr_steps 2 2 3 (rr_start (reset_process_states rr_example)))
     = Some (6, [1, 0], [1, 1], 0) \<and>
   map_option rr_view (rr_steps 2 2 4 (rr_start (reset_process_states rr_example)))
     = Some (7, [0], [1, 0], 1) \<and>
   map_option rr_view (rr_steps 2 2 5 (rr_start (reset_process_states rr_example)))
     = Some (8, [], [0, 0], 2) \<and>
   rr_steps 2 2 6 (rr_start (reset_process_states rr_example)) = None \<and>
   round_robin rr_example 2 =
     Some (rr_example\<lparr>processes :=
             [(mk_process 1 0 5 0)\<lparr>remaining_time := 5, completion_time := 8\<rparr>,
              (mk_process 2 1 3 0)\<lparr>remaining_time := 3, completion_time := 7\<rparr>]\<rparr>,
           [''RR''])"
  by code_simp

subsection \<open>The invariant on valid inputs\<close>

lemma rr_good_nth:
  assumes "rr_good n s" "i < n"
  shows "valid_process (procs s ! i)"
    and "remaining s ! i \<le> burst_time (procs s ! i)"
    and "remaining s ! i < burst_time (procs s ! i) \<Longrightarrow>
           arrival_time (procs s ! i) + burst_time (procs s ! i) - remaining s ! i \<le> current_time s"
    and "is_completed s ! i \<longleftrightarrow> remaining s ! i = 0"
    and "is_completed s ! i \<Longrightarrow>
           arrival_time (procs s ! i) + burst_time (procs s ! i) \<le> completion_time (procs s ! i)"
    and "\<not> is_completed s ! i \<Longrightarrow> arrival_time (procs s ! i) \<le> current_time s \<Longrightarrow>
           in_ready_queue s ! i"
  using assms by (simp_all add: rr_good_def)

lemma rr_slice_good:
  assumes inv: "rr_inv n s" and good: "rr_good n s" and ne: "\<not> is_empty (q s)" and tq: "0 < tq"
  shows "rr_good n (rr_slice n tq s) \<and> rr_work_left n (rr_slice n tq s) < rr_work_left n s"
proof -
  define idx where "idx = nat (hd (queue_list (q s)))"
  define e where "e = (if remaining s ! idx < tq then remaining s ! idx else tq)"
  define s' where "s' = rr_slice n tq s"
  define r' where "r' = remaining s ! idx - e"
  define t where "t = current_time s"
  let ?W = "\<lambda>i. \<not> is_completed s ! i \<and> \<not> (in_ready_queue s)[idx := False] ! i \<and>
                 arrival_time (procs s ! i) > t \<and> arrival_time (procs s ! i) \<le> t + e"
  note spec0 = rr_slice_spec [OF inv ne tq, folded idx_def]
  note spec = spec0 [folded e_def s'_def, folded r'_def t_def]
  have idx: "idx < n" and fl: "in_ready_queue s ! idx" and e0: "0 \<le> e"
    using spec(1-3) .
  have len: "n \<le> length (procs s)" "length (remaining s) = length (procs s)"
      "length (is_completed s) = length (procs s)" "length (in_ready_queue s) = length (procs s)"
    using inv by (simp_all add: rr_inv_def)
  have il: "idx < length (procs s)" "idx < length (remaining s)" "idx < length (is_completed s)"
    "idx < length (in_ready_queue s)"
    using idx len by simp_all
  have ai: "arrival_time (procs s ! idx) \<le> t" and nc: "\<not> is_completed s ! idx"
    using inv idx fl by (simp_all add: rr_inv_def t_def)
  have rpos: "0 < remaining s ! idx"
    using rr_good_nth(4) [OF good idx] nc inv idx by (auto simp: rr_inv_def less_le)
  have e1: "1 \<le> e" "e \<le> remaining s ! idx"
    using rpos tq by (simp_all add: e_def)
  have r0: "0 \<le> r'" "r' < remaining s ! idx" using e1 by (simp_all add: r'_def)
  have tm: "current_time s' = t + e" using spec(6) .
  have rem': "remaining s' ! i = (if i = idx then r' else remaining s ! i)" for i
    using spec(7) il by (simp add: nth_list_update)
  have comp': "is_completed s' ! i = (if i = idx \<and> r' = 0 then True else is_completed s ! i)" for i
    using spec(9) il by (simp add: nth_list_update)
  have arr': "arrival_time (procs s' ! i) = arrival_time (procs s ! i)" for i
    using spec(11) by simp
  have bur': "burst_time (procs s' ! i) = burst_time (procs s ! i)" for i
    using spec(11) by simp
  have val': "valid_process (procs s' ! i) = valid_process (procs s ! i)" for i
    using spec(11) by simp
  have ct_other: "completion_time (procs s' ! i) = completion_time (procs s ! i)" if "i \<noteq> idx" for i
    using spec(11) that by (simp add: completion_update_nth)
  have ct_idx: "completion_time (procs s' ! idx) = t + e" if "r' = 0"
    using spec(11) that il by (simp add: completion_update_nth)
  have flag': "in_ready_queue s' ! i \<longleftrightarrow>
           (i \<noteq> idx \<and> in_ready_queue s ! i) \<or> ?W i \<or> (i = idx \<and> r' \<noteq> 0)" if "i < n" for i
    using spec(12) that by simp
  have per: "valid_process (procs s' ! i) \<and>
             remaining s' ! i \<le> burst_time (procs s' ! i) \<and>
             (remaining s' ! i < burst_time (procs s' ! i) \<longrightarrow>
                arrival_time (procs s' ! i) + burst_time (procs s' ! i) - remaining s' ! i
                  \<le> current_time s') \<and>
             (is_completed s' ! i \<longleftrightarrow> remaining s' ! i = 0) \<and>
             (is_completed s' ! i \<longrightarrow>
                arrival_time (procs s' ! i) + burst_time (procs s' ! i) \<le> completion_time (procs s' ! i)) \<and>
             (\<not> is_completed s' ! i \<and> arrival_time (procs s' ! i) \<le> current_time s' \<longrightarrow>
                in_ready_queue s' ! i)"
    if i: "i < n" for i
  proof (cases "i = idx")
    case True
    note G = rr_good_nth [OF good idx]
    have p3: "arrival_time (procs s ! idx) + burst_time (procs s ! idx) - r' \<le> t + e"
    proof (cases "remaining s ! idx < burst_time (procs s ! idx)")
      case True
      from G(3) [OF True] show ?thesis by (simp add: r'_def t_def)
    next
      case False
      with G(2) have "remaining s ! idx = burst_time (procs s ! idx)" by simp
      with ai show ?thesis by (simp add: r'_def)
    qed
    have p2: "r' \<le> burst_time (procs s ! idx)" using G(2) r0 by simp
    have p5: "r' = 0 \<longrightarrow> arrival_time (procs s ! idx) + burst_time (procs s ! idx) \<le> t + e"
      using p3 by auto
    show ?thesis
      unfolding True val' bur' arr' rem' comp' tm
      using G(1) p2 p3 p5 nc flag' [OF idx] ct_idx by auto
  next
    case False
    note G = rr_good_nth [OF good i]
    have p3: "remaining s ! i < burst_time (procs s ! i) \<longrightarrow>
        arrival_time (procs s ! i) + burst_time (procs s ! i) - remaining s ! i \<le> t + e"
      using G(3) e0 by (auto simp: t_def)
    have p7: "\<not> is_completed s ! i \<and> arrival_time (procs s ! i) \<le> t + e \<longrightarrow> in_ready_queue s' ! i"
    proof (intro impI)
      assume a: "\<not> is_completed s ! i \<and> arrival_time (procs s ! i) \<le> t + e"
      show "in_ready_queue s' ! i"
      proof (cases "in_ready_queue s ! i")
        case True
        with False flag' [OF i] show ?thesis by simp
      next
        case nf: False
        have "\<not> arrival_time (procs s ! i) \<le> current_time s"
          using G(6) a nf by blast
        then have "t < arrival_time (procs s ! i)" by (simp add: t_def)
        with a nf False have "?W i" by simp
        with flag' [OF i] show ?thesis by simp
      qed
    qed
    show ?thesis
      unfolding val' bur' arr' tm
      using False G(1,2,4,5) p3 p7 by (simp add: rem' comp' ct_other)
  qed
  have cnt: "completed s' = card {i. i < n \<and> is_completed s' ! i}"
  proof (cases "r' = 0")
    case True
    have "{i. i < n \<and> is_completed s' ! i} = insert idx {i. i < n \<and> is_completed s ! i}"
      using True idx by (auto simp: comp')
    moreover have "idx \<notin> {i. i < n \<and> is_completed s ! i}" using nc by simp
    moreover have "finite {i. i < n \<and> is_completed s ! i}" by simp
    moreover have "completed s = card {i. i < n \<and> is_completed s ! i}"
      using good by (simp add: rr_good_def)
    ultimately show ?thesis using spec(10) True by simp
  next
    case False
    have "{i. i < n \<and> is_completed s' ! i} = {i. i < n \<and> is_completed s ! i}"
      using False by (auto simp: comp')
    moreover have "completed s = card {i. i < n \<and> is_completed s ! i}"
      using good by (simp add: rr_good_def)
    ultimately show ?thesis using spec(10) False by simp
  qed
  have t0: "0 \<le> current_time s'" using good e0 by (simp add: tm rr_good_def t_def)
  have g': "rr_good n s'"
    unfolding rr_good_def using t0 per cnt by simp
  have fin: "finite {..<n}" and mem: "idx \<in> {..<n}" using idx by auto
  let ?f = "\<lambda>i. nat (remaining s ! i)" and ?f' = "\<lambda>i. nat (remaining s' ! i)"
  have rest: "sum ?f' ({..<n} - {idx}) = sum ?f ({..<n} - {idx})"
    by (rule sum.cong) (auto simp: rem')
  have "sum ?f' {..<n} = ?f' idx + sum ?f' ({..<n} - {idx})" by (rule sum.remove [OF fin mem])
  moreover have "sum ?f {..<n} = ?f idx + sum ?f ({..<n} - {idx})" by (rule sum.remove [OF fin mem])
  moreover have "?f' idx < ?f idx" using r0 by (simp add: rem')
  ultimately have sum: "sum ?f' {..<n} < sum ?f {..<n}" using rest by simp
  have "card {i. i < n \<and> \<not> is_completed s' ! i \<and> arrival_time (procs s' ! i) > current_time s'}
      \<le> card {i. i < n \<and> \<not> is_completed s ! i \<and> arrival_time (procs s ! i) > current_time s}"
    by (rule card_mono) (use e0 in \<open>auto simp: comp' arr' tm t_def split: if_splits\<close>)
  with sum have "rr_work_left n s' < rr_work_left n s"
    by (simp add: rr_work_left_def)
  with g' show ?thesis by (simp add: s'_def)
qed

lemma rr_unfinished:
  assumes "rr_good n s" "completed s < n"
  shows "\<exists>i<n. \<not> is_completed s ! i"
proof (rule ccontr)
  assume "\<not> (\<exists>i<n. \<not> is_completed s ! i)"
  then have "{i. i < n \<and> is_completed s ! i} = {..<n}" by auto
  with assms show False by (simp add: rr_good_def)
qed

lemma rr_finished:
  assumes "rr_good n s" "\<not> completed s < n"
  shows "\<forall>i<n. is_completed s ! i"
proof -
  let ?D = "{i. i < n \<and> is_completed s ! i}"
  have sub: "?D \<subseteq> {..<n}" by auto
  have c: "completed s = card ?D" using assms(1) by (simp add: rr_good_def)
  have "card ?D \<le> card {..<n}" by (rule card_mono) (use sub in auto)
  with c assms(2) have eq: "card ?D = card {..<n}" by simp
  have "?D = {..<n}" by (rule card_subset_eq) (use sub eq in auto)
  then show ?thesis by blast
qed

lemma rr_idle_good:
  assumes inv: "rr_inv n s" and good: "rr_good n s" and em: "is_empty (q s)"
    and c: "completed s < n"
  shows "rr_next_arrival_scan s n \<noteq> INT_MAX \<and>
         rr_good n (rr_admit_at (s\<lparr>current_time := rr_next_arrival_scan s n\<rparr>) n) \<and>
         rr_work_left n (rr_admit_at (s\<lparr>current_time := rr_next_arrival_scan s n\<rparr>) n)
           < rr_work_left n s"
proof -
  define na where "na = rr_next_arrival_scan s n"
  define s' where "s' = rr_admit_at (s\<lparr>current_time := na\<rparr>) n"
  from em have "queue_list (q s) = []" by (simp add: is_empty_queue_list)
  with inv have nof: "\<And>i. i < n \<Longrightarrow> \<not> in_ready_queue s ! i" by (simp add: rr_inv_def)
  have future: "current_time s < arrival_time (procs s ! i)" if "i < n" "\<not> is_completed s ! i" for i
  proof -
    have "\<not> arrival_time (procs s ! i) \<le> current_time s"
      using rr_good_nth(6) [OF good that(1) that(2)] nof [OF that(1)] by blast
    then show ?thesis by simp
  qed
  have least: "na \<le> arrival_time (procs s ! i)" if "i < n" "\<not> is_completed s ! i" for i
    unfolding na_def using rr_next_arrival_scan_le [OF that(1) that(2) future [OF that]] .
  from rr_unfinished [OF good c] obtain i0 where i0: "i0 < n" "\<not> is_completed s ! i0" by blast
  have "remaining s ! i0 \<le> rr_rest n s"
    unfolding rr_rest_def
    by (rule member_le_sum [where f = "\<lambda>i. remaining s ! i"]) (use inv i0 in \<open>auto simp: rr_inv_def\<close>)
  moreover have "0 \<le> remaining s ! i0" "remaining s ! i0 \<noteq> 0"
    using inv i0 rr_good_nth(4) [OF good i0(1)] by (simp_all add: rr_inv_def)
  moreover have "arrival_time (procs s ! i0) + rr_rest n s \<le> INT_MAX"
    using inv i0 by (simp add: rr_inv_def)
  ultimately have "arrival_time (procs s ! i0) < INT_MAX" by simp
  with least [OF i0] have ne: "na \<noteq> INT_MAX" by simp
  note spec = rr_idle_spec [OF inv em ne [unfolded na_def], folded na_def, folded s'_def]
  from ne rr_next_arrival_scan_cases [of s n] obtain j where
    j: "j < n" "\<not> is_completed s ! j" "current_time s < arrival_time (procs s ! j)"
      "na = arrival_time (procs s ! j)"
    by (auto simp: na_def)
  have tle: "current_time s \<le> na" using j by simp
  have per: "valid_process (procs s' ! i) \<and>
             remaining s' ! i \<le> burst_time (procs s' ! i) \<and>
             (remaining s' ! i < burst_time (procs s' ! i) \<longrightarrow>
                arrival_time (procs s' ! i) + burst_time (procs s' ! i) - remaining s' ! i
                  \<le> current_time s') \<and>
             (is_completed s' ! i \<longleftrightarrow> remaining s' ! i = 0) \<and>
             (is_completed s' ! i \<longrightarrow>
                arrival_time (procs s' ! i) + burst_time (procs s' ! i) \<le> completion_time (procs s' ! i)) \<and>
             (\<not> is_completed s' ! i \<and> arrival_time (procs s' ! i) \<le> current_time s' \<longrightarrow>
                in_ready_queue s' ! i)"
    if i: "i < n" for i
  proof -
    note G = rr_good_nth [OF good i]
    have p3: "remaining s ! i < burst_time (procs s ! i) \<longrightarrow>
        arrival_time (procs s ! i) + burst_time (procs s ! i) - remaining s ! i \<le> na"
      using G(3) tle by auto
    have p7: "\<not> is_completed s ! i \<and> arrival_time (procs s ! i) \<le> na \<longrightarrow> in_ready_queue s' ! i"
      using least [OF i] spec(8) i by auto
    show ?thesis
      unfolding spec(3-7) using G(1,2,4,5) p3 p7 by simp
  qed
  have cnt: "completed s' = card {i. i < n \<and> is_completed s' ! i}"
    unfolding spec(3-7) using good by (simp add: rr_good_def)
  have t0: "0 \<le> current_time s'"
    unfolding spec(3-7) using good tle by (simp add: rr_good_def)
  have g': "rr_good n s'"
    unfolding rr_good_def using t0 per cnt by simp
  have "{i. i < n \<and> \<not> is_completed s ! i \<and> arrival_time (procs s ! i) > na}
      \<subset> {i. i < n \<and> \<not> is_completed s ! i \<and> arrival_time (procs s ! i) > current_time s}"
    using j by auto
  then have "card {i. i < n \<and> \<not> is_completed s ! i \<and> arrival_time (procs s ! i) > na}
      < card {i. i < n \<and> \<not> is_completed s ! i \<and> arrival_time (procs s ! i) > current_time s}"
    by (intro psubset_card_mono) auto
  then have "rr_work_left n s' < rr_work_left n s"
    unfolding rr_work_left_def spec(3-7) by simp
  with ne g' show ?thesis by (simp add: na_def s'_def)
qed

lemma rr_iteration_good:
  assumes inv: "rr_inv n s" and good: "rr_good n s" and tq: "0 < tq" and c: "completed s < n"
  shows "\<exists>s'. rr_iteration n tq s = Next s' \<and> rr_inv n s' \<and> rr_good n s' \<and>
              rr_work_left n s' < rr_work_left n s"
proof (cases "is_empty (q s)")
  case True
  from rr_idle_good [OF inv good True c]
  have ne: "rr_next_arrival_scan s n \<noteq> INT_MAX" by simp
  from rr_idle_good [OF inv good True c] rr_idle_spec(1) [OF inv True ne] True
  show ?thesis by (simp add: rr_iteration_def Let_def)
next
  case False
  from rr_slice_good [OF inv good False tq] rr_slice_spec(5) [OF inv False tq] False
  show ?thesis by (simp add: rr_iteration_def)
qed

lemma rr_loop_good_total:
  assumes "rr_inv n s" "rr_good n s" "0 < tq"
  shows "\<exists>s'. rr_loop n tq s = Some s' \<and> rr_inv n s' \<and> rr_good n s' \<and> \<not> completed s' < n"
  using assms(1,2)
proof (induction "rr_work_left n s" arbitrary: s rule: less_induct)
  case less
  show ?case
  proof (cases "completed s < n")
    case False
    with less.prems show ?thesis
      by (subst rr_loop.simps) simp
  next
    case True
    from rr_iteration_good [OF less.prems assms(3) True] obtain s1 where
      s1: "rr_iteration n tq s = Next s1" "rr_inv n s1" "rr_good n s1"
        "rr_work_left n s1 < rr_work_left n s"
      by blast
    from less.hyps [OF s1(4) s1(2) s1(3)] obtain s' where
      "rr_loop n tq s1 = Some s'" "rr_inv n s'" "rr_good n s'" "\<not> completed s' < n" by blast
    with s1(1) True show ?thesis
      by (subst rr_loop.simps) simp
  qed
qed

lemma valid_input_fits:
  assumes "valid_input ctx" "num_processes ctx \<le> QUEUE_MAX"
  shows "rr_fits ctx"
  using assms
  by (auto simp: valid_input_def rr_fits_def list_all_length valid_process_def intro: less_imp_le)

lemma rr_start_good:
  assumes v: "valid_input ctx" and cap: "num_processes ctx \<le> QUEUE_MAX" and cf: "clock_fits ctx"
  shows "rr_good (nat (num_processes ctx)) (rr_start (reset_process_states ctx))"
proof -
  let ?c = "reset_process_states ctx"
  let ?n = "nat (num_processes ctx)"
  let ?ps = "bubble_sort rr_swap (processes ?c) ?n"
  have fits: "rr_fits ctx" using valid_input_fits [OF v cap] .
  have cfr: "clock_fits (reset_process_states ctx)" using cf by (simp add: clock_fits_reset)
  note spec = rr_start_spec [OF rr_fits_reset [OF fits] cfr, unfolded reset_simps]
  have len: "?n \<le> length (processes ?c)" using v by (simp add: valid_input_def)
  have "\<forall>i<?n. valid_process (processes ?c ! i)"
    using valid_input_nth [OF v] len
    by (simp add: reset_process_states_def reset_process_def valid_process_def)
  from bubble_sort_all [where P = valid_process, OF this len]
  have val: "\<forall>i<?n. valid_process (?ps ! i)" .
  have per: "valid_process (procs (rr_start ?c) ! i) \<and>
             remaining (rr_start ?c) ! i \<le> burst_time (procs (rr_start ?c) ! i) \<and>
             (remaining (rr_start ?c) ! i < burst_time (procs (rr_start ?c) ! i) \<longrightarrow>
                arrival_time (procs (rr_start ?c) ! i) + burst_time (procs (rr_start ?c) ! i)
                  - remaining (rr_start ?c) ! i \<le> current_time (rr_start ?c)) \<and>
             (is_completed (rr_start ?c) ! i \<longleftrightarrow> remaining (rr_start ?c) ! i = 0) \<and>
             (is_completed (rr_start ?c) ! i \<longrightarrow>
                arrival_time (procs (rr_start ?c) ! i) + burst_time (procs (rr_start ?c) ! i)
                  \<le> completion_time (procs (rr_start ?c) ! i)) \<and>
             (\<not> is_completed (rr_start ?c) ! i \<and>
              arrival_time (procs (rr_start ?c) ! i) \<le> current_time (rr_start ?c) \<longrightarrow>
                in_ready_queue (rr_start ?c) ! i)"
    if i: "i < ?n" for i
  proof -
    from val i have vi: "valid_process (?ps ! i)" by simp
    have r: "remaining (rr_start ?c) ! i = burst_time (?ps ! i)" using spec(5) i by simp
    have nc: "\<not> is_completed (rr_start ?c) ! i" using spec(6) i by simp
    have f: "in_ready_queue (rr_start ?c) ! i \<longleftrightarrow> arrival_time (?ps ! i) = 0"
      using spec(7) i by simp
    show ?thesis
      unfolding spec(2-4) r using vi nc f by (auto simp: valid_process_def)
  qed
  have "{i. i < ?n \<and> is_completed (rr_start ?c) ! i} = {}" using spec(6) by auto
  then have cnt: "completed (rr_start ?c) = card {i. i < ?n \<and> is_completed (rr_start ?c) ! i}"
    using spec(4) by simp
  show ?thesis
    unfolding rr_good_def using per cnt spec(3) by simp
qed

lemma rr_run_good:
  assumes v: "valid_input ctx" and cap: "num_processes ctx \<le> QUEUE_MAX" and tq: "0 < tq"
    and cf: "clock_fits ctx"
  shows "\<exists>s. rr_loop (nat (num_processes ctx)) tq (rr_start (reset_process_states ctx)) = Some s \<and>
             rr_good (nat (num_processes ctx)) s \<and> \<not> completed s < nat (num_processes ctx) \<and>
             round_robin ctx tq =
               Some (display_results (reset_process_states ctx\<lparr>processes := procs s\<rparr>) ''RR'')"
proof -
  have fits: "rr_fits ctx" using valid_input_fits [OF v cap] .
  from rr_loop_good_total [OF rr_fits_start [OF fits cf] rr_start_good [OF v cap cf] tq]
  obtain s where s: "rr_loop (nat (num_processes ctx)) tq (rr_start (reset_process_states ctx)) = Some s"
    "rr_good (nat (num_processes ctx)) s" "\<not> completed s < nat (num_processes ctx)" by blast
  have "0 < num_processes ctx" using v by (simp add: valid_input_def)
  with tq s(1) have "round_robin ctx tq =
               Some (display_results (reset_process_states ctx\<lparr>processes := procs s\<rparr>) ''RR'')"
    by (simp add: round_robin_def Let_def)
  with s show ?thesis by blast
qed

section \<open>Completion times\<close>

subsection \<open>The loop of round robin keeps the processes\<close>

lemma completion_update_static:
  "map static_fields (ps[idx := (ps ! idx)\<lparr>completion_time := c\<rparr>]) = map static_fields ps"
proof -
  have "map static_fields (ps[idx := (ps ! idx)\<lparr>completion_time := c\<rparr>])
        = (map static_fields ps)[idx := static_fields (ps ! idx)]"
    by (simp add: map_update static_fields_def)
  also have "\<dots> = map static_fields ps"
    by (cases "idx < length ps") (simp_all add: list_update_same_conv list_update_beyond)
  finally show ?thesis .
qed

lemma rr_iteration_static:
  assumes "rr_inv n s" "0 < tq" "rr_iteration n tq s = Next s'"
  shows "map static_fields (procs s') = map static_fields (procs s)"
proof (cases "is_empty (q s)")
  case True
  with assms(3) have "s' = rr_admit_at (s\<lparr>current_time := rr_next_arrival_scan s n\<rparr>) n"
    by (simp add: rr_iteration_def Let_def split: if_splits)
  moreover from True assms(3) have "rr_next_arrival_scan s n \<noteq> INT_MAX"
    by (simp add: rr_iteration_def Let_def split: if_splits)
  ultimately show ?thesis using rr_idle_spec(3) [OF assms(1) True] by simp
next
  case False
  with assms(3) have "s' = rr_slice n tq s" by (simp add: rr_iteration_def)
  with rr_slice_spec(11) [OF assms(1) False assms(2)] show ?thesis
    by (simp add: completion_update_static)
qed

lemma rr_loop_static_total:
  assumes "rr_inv n s" "rr_good n s" "0 < tq"
  shows "\<exists>s'. rr_loop n tq s = Some s' \<and> rr_good n s' \<and> \<not> completed s' < n \<and>
              map static_fields (procs s') = map static_fields (procs s)"
  using assms(1,2)
proof (induction "rr_work_left n s" arbitrary: s rule: less_induct)
  case less
  show ?case
  proof (cases "completed s < n")
    case False
    with less.prems show ?thesis
      by (subst rr_loop.simps) simp
  next
    case True
    from rr_iteration_good [OF less.prems assms(3) True] obtain s1 where
      s1: "rr_iteration n tq s = Next s1" "rr_inv n s1" "rr_good n s1"
        "rr_work_left n s1 < rr_work_left n s"
      by blast
    have st: "map static_fields (procs s1) = map static_fields (procs s)"
      using rr_iteration_static [OF less.prems(1) assms(3) s1(1)] .
    from less.hyps [OF s1(4) s1(2) s1(3)] obtain s' where
      "rr_loop n tq s1 = Some s'" "rr_good n s'" "\<not> completed s' < n"
      "map static_fields (procs s') = map static_fields (procs s1)" by blast
    with s1(1) True st show ?thesis
      by (subst rr_loop.simps) simp
  qed
qed

lemma reset_static:
  "map static_fields (processes (reset_process_states ctx)) = map static_fields (processes ctx)"
  by (simp add: reset_process_states_def reset_process_def static_fields_def)

lemma static_arrival_burst:
  assumes "map static_fields ps' = map static_fields ps" "i < length ps"
  shows "arrival_time (ps' ! i) = arrival_time (ps ! i)" "burst_time (ps' ! i) = burst_time (ps ! i)"
proof -
  have "length ps' = length ps" using assms(1) by (rule map_eq_imp_length_eq)
  with assms have "static_fields (ps' ! i) = static_fields (ps ! i)"
    by (metis nth_map)
  then show "arrival_time (ps' ! i) = arrival_time (ps ! i)" "burst_time (ps' ! i) = burst_time (ps ! i)"
    by (simp_all add: static_fields_def)
qed

subsection \<open>No process completes before its arrival time plus its burst\<close>

lemma good_bound:
  assumes "good n s" "\<not> completed s < n" "i < n"
  shows "arrival_time (procs s ! i) + burst_time (procs s ! i) \<le> completion_time (procs s ! i)"
  using good_finished [OF assms(1,2)] assms(1,3) by (simp add: good_def)

lemma rr_good_bound:
  assumes "rr_good n s" "\<not> completed s < n" "i < n"
  shows "arrival_time (procs s ! i) + burst_time (procs s ! i) \<le> completion_time (procs s ! i)"
  using rr_finished [OF assms(1,2)] rr_good_nth(5) [OF assms(1,3)] assms(3) by simp

subsection \<open>A run with one process more than the queue holds\<close>

lemma bubble_inner_id:
  "(\<forall>i<j. \<not> swap (xs ! i) (xs ! Suc i)) \<Longrightarrow> bubble_inner swap xs j = xs"
  by (induction j) (simp_all add: Let_def)

lemma bubble_outer_id:
  assumes "\<forall>i. Suc i < m \<longrightarrow> \<not> swap (xs ! i) (xs ! Suc i)"
  shows "bubble_outer swap xs m k = xs"
proof (induction k)
  case 0
  then show ?case by simp
next
  case (Suc k)
  have "bubble_inner swap xs (m - 1 - k) = xs"
    by (rule bubble_inner_id) (use assms in auto)
  with Suc show ?case by simp
qed

lemma rr_admit_window_none:
  "(\<forall>i<k. \<not> arrival_time (procs s ! i) > st) \<Longrightarrow> rr_admit_window st s k = s"
  by (induction k) (simp_all add: Let_def)

lemma rr_next_arrival_scan_none:
  "(\<forall>i<k. \<not> arrival_time (procs s ! i) > current_time s) \<Longrightarrow> rr_next_arrival_scan s k = INT_MAX"
  by (induction k) (simp_all add: Let_def)

text \<open>The loop that enqueues the arrivals at 0, when every process arrives at 0: the queue
  takes the indices below \<open>QUEUE_MAX\<close>, and the flags of all indices visited are set.\<close>

lemma rr_admit_zero_all:
  assumes arr: "\<forall>i<n. arrival_time (procs s0 ! i) = 0"
    and w0: "wfq (q s0)" and q0: "queue_list (q s0) = []"
    and f0: "\<forall>i<n. \<not> in_ready_queue s0 ! i" and len: "n \<le> length (in_ready_queue s0)"
    and k: "k \<le> n"
  shows "procs (rr_admit_zero s0 k) = procs s0 \<and>
         current_time (rr_admit_zero s0 k) = current_time s0 \<and>
         completed (rr_admit_zero s0 k) = completed s0 \<and>
         remaining (rr_admit_zero s0 k) = remaining s0 \<and>
         is_completed (rr_admit_zero s0 k) = is_completed s0 \<and>
         length (in_ready_queue (rr_admit_zero s0 k)) = length (in_ready_queue s0) \<and>
         (\<forall>i<n. in_ready_queue (rr_admit_zero s0 k) ! i \<longleftrightarrow> i < k) \<and>
         wfq (q (rr_admit_zero s0 k)) \<and>
         queue_list (q (rr_admit_zero s0 k)) = map int [0..<min k (nat QUEUE_MAX)]"
  using k
proof (induction k)
  case 0
  with w0 q0 f0 show ?case by simp
next
  case (Suc k)
  let ?s = "rr_admit_zero s0 k"
  from Suc have IH: "procs ?s = procs s0" "current_time ?s = current_time s0"
    "completed ?s = completed s0" "remaining ?s = remaining s0" "is_completed ?s = is_completed s0"
    "length (in_ready_queue ?s) = length (in_ready_queue s0)"
    "\<forall>i<n. in_ready_queue ?s ! i \<longleftrightarrow> i < k"
    "wfq (q ?s)" "queue_list (q ?s) = map int [0..<min k (nat QUEUE_MAX)]"
    by simp_all
  have kn: "k < n" using Suc.prems by simp
  have step: "rr_admit_zero s0 (Suc k) = rr_enqueue ?s k"
    using arr kn IH(1) by (simp add: Let_def)
  have q': "q (rr_enqueue ?s k) = enqueue (q ?s) (int k)" by (simp add: rr_enqueue_def)
  have kl: "k < length (in_ready_queue ?s)" using kn len IH(6) by simp
  have flags: "\<forall>i<n. in_ready_queue (rr_enqueue ?s k) ! i \<longleftrightarrow> i < Suc k"
    using IH(7) kl by (auto simp: nth_list_update less_Suc_eq)
  have ql: "queue_len (q ?s) = min k (nat QUEUE_MAX)"
    using queue_list_length [of "q ?s"] IH(9) by simp
  have qs: "wfq (enqueue (q ?s) (int k)) \<and>
            queue_list (enqueue (q ?s) (int k)) = map int [0..<min (Suc k) (nat QUEUE_MAX)]"
  proof (cases "k < nat QUEUE_MAX")
    case True
    then have "queue_len (q ?s) \<noteq> nat QUEUE_MAX" using ql by simp
    then have "\<not> queue_full (q ?s)" using queue_full_iff [OF IH(8)] by simp
    from enqueue_list [OF IH(8) this, of "int k"] True show ?thesis
      by (simp add: IH(9) min_def)
  next
    case False
    then have "queue_len (q ?s) = nat QUEUE_MAX" using ql by simp
    then have "queue_full (q ?s)" using queue_full_iff [OF IH(8)] by simp
    then have "enqueue (q ?s) (int k) = q ?s" by (simp add: enqueue_def)
    with False IH(8,9) show ?thesis by (simp add: min_def)
  qed
  show ?case
    unfolding step using IH(1-6) flags qs by (simp add: q')
qed

text \<open>The state at the head of the loop.\<close>

lemma rr_overfull_start: "overfull_at 0 (rr_start (reset_process_states rr_overfull))"
proof -
  let ?c = "reset_process_states rr_overfull"
  let ?m = "nat QUEUE_MAX"
  let ?n = "Suc ?m"
  have n: "nat (num_processes ?c) = ?n"
    by (simp add: rr_overfull_def reset_process_states_def QUEUE_MAX_def)
  have len: "length (processes ?c) = ?n"
    by (simp add: rr_overfull_def reset_process_states_def)
  have cell: "processes ?c ! i =
      (mk_process (int i + 1) 0 1 0)\<lparr>remaining_time := 1, completion_time := 0\<rparr>" if "i < ?n" for i
    using that
    by (simp add: rr_overfull_def reset_process_states_def reset_process_def mk_process_def
        del: upt_Suc)
  have "\<forall>i. Suc i < ?n \<longrightarrow> \<not> rr_swap (processes ?c ! i) (processes ?c ! Suc i)"
    by (simp add: cell rr_swap_def mk_process_def)
  then have sorted: "bubble_sort rr_swap (processes ?c) ?n = processes ?c"
    by (simp add: bubble_sort_def bubble_outer_id)
  let ?rem = "rr_init_remaining (processes ?c) (replicate ?n 0) ?n"
  let ?s0 = "\<lparr>procs = processes ?c, current_time = 0, completed = 0, remaining = ?rem,
        is_completed = replicate ?n False, in_ready_queue = replicate ?n False,
        q = init_queue \<lparr>items = replicate (nat QUEUE_MAX) 0, front = 0, rear = 0\<rparr>,
        dropped = 0\<rparr>"
  have st: "rr_start ?c = rr_admit_zero ?s0 ?n"
    unfolding rr_start_eq n sorted len ..
  have arr: "\<forall>i<?n. arrival_time (procs ?s0 ! i) = 0"
    by (simp add: cell mk_process_def)
  have w0: "wfq (q ?s0)" by (simp add: wfq_def init_queue_def)
  have q0: "queue_list (q ?s0) = []" by simp
  have f0: "\<forall>i<?n. \<not> in_ready_queue ?s0 ! i" by (simp del: replicate_Suc)
  have fl: "?n \<le> length (in_ready_queue ?s0)" by simp
  note Z = rr_admit_zero_all [OF arr w0 q0 f0 fl order_refl]
  have remi: "\<forall>i<?n. ?rem ! i = 1"
  proof (intro allI impI)
    fix i assume i: "i < ?n"
    have "?n \<le> length (replicate ?n (0::int))" by (simp del: replicate_Suc)
    from rr_init_remaining_nth [OF this i]
    have "?rem ! i = burst_time (processes ?c ! i)" .
    also have "\<dots> = 1" using cell [OF i] by (simp add: mk_process_def)
    finally show "?rem ! i = 1" .
  qed
  have last: "burst_time (processes ?c ! ?m) = 1" "completion_time (processes ?c ! ?m) = 0"
    by (simp_all add: cell mk_process_def)
  show ?thesis
    unfolding overfull_at_def st
    using Z remi arr last len
    by (simp del: rr_admit_zero.simps replicate_Suc rr_init_remaining.simps)
qed

text \<open>A slice.\<close>

lemma overfull_slice:
  assumes J: "overfull_at c s" and c: "c < nat QUEUE_MAX"
  shows "rr_iteration (Suc (nat QUEUE_MAX)) 1 s = Next (rr_slice (Suc (nat QUEUE_MAX)) 1 s) \<and>
         overfull_at (Suc c) (rr_slice (Suc (nat QUEUE_MAX)) 1 s)"
proof -
  let ?m = "nat QUEUE_MAX"
  let ?n = "Suc ?m"
  from J have w: "wfq (q s)" and ql: "queue_list (q s) = map int [c..<?m]"
    and tm: "current_time s = int c" and cm: "completed s = c"
    and len: "length (procs s) = ?n" "length (remaining s) = ?n"
      "length (is_completed s) = ?n" "length (in_ready_queue s) = ?n"
    and per: "\<forall>i<?n. remaining s ! i = (if i < c then 0 else 1) \<and>
         (is_completed s ! i \<longleftrightarrow> i < c) \<and> (in_ready_queue s ! i \<longleftrightarrow> c \<le> i) \<and>
         arrival_time (procs s ! i) = 0"
    and last: "burst_time (procs s ! ?m) = 1" "completion_time (procs s ! ?m) = 0"
    by (simp_all add: overfull_at_def)
  have up: "[c..<?m] = c # [Suc c..<?m]" using c by (simp add: upt_conv_Cons)
  have ne: "\<not> is_empty (q s)" using ql up by (simp add: is_empty_queue_list)
  obtain item0 q1 where deq0: "dequeue (q s) = (item0, q1)" by (cases "dequeue (q s)")
  with dequeue_list [OF w ne] ql up have deq: "dequeue (q s) = (int c, q1)"
    and w1: "wfq q1" and ql1: "queue_list q1 = map int [Suc c..<?m]"
    by simp_all
  have cn: "c < ?n" using c by simp
  have rc: "remaining s ! c = 1" using per cn by simp
  define s1 where "s1 = s\<lparr>q := q1, in_ready_queue := (in_ready_queue s)[c := False]\<rparr>"
  define s2 where "s2 = s1\<lparr>current_time := int c + 1, remaining := (remaining s)[c := 0]\<rparr>"
  have wr: "wrap_int (int c + 1) = int c + 1"
    using c by (simp add: wrap_int_id INT_MAX_def QUEUE_MAX_def)
  have now: "rr_admit_window (int c) s2 ?n = s2"
    by (rule rr_admit_window_none) (use per in \<open>simp add: s2_def s1_def\<close>)
  have slice: "rr_slice ?n 1 s =
      (if remaining s2 ! c = 0
       then s2\<lparr>is_completed := (is_completed s2)[c := True],
               completed := completed s2 + 1,
               procs := (procs s2)[c := (procs s2 ! c)\<lparr>completion_time := current_time s2\<rparr>]\<rparr>
       else rr_enqueue s2 c)"
  proof -
    have a: "nat (int c) = c" by simp
    have b: "s\<lparr>q := q1, in_ready_queue := (in_ready_queue s)[c := False]\<rparr> = s1"
      by (simp add: s1_def)
    have c': "(if remaining s1 ! c < 1 then remaining s1 ! c else 1) = 1"
      using rc by (simp add: s1_def)
    have d: "s1\<lparr>current_time := wrap_int (current_time s1 + 1),
                remaining := (remaining s1)[c := remaining s1 ! c - 1]\<rparr> = s2"
      using wr rc tm by (simp add: s2_def s1_def)
    have e: "rr_admit_window (current_time s1) s2 ?n = s2"
      using now tm by (simp add: s1_def)
    show ?thesis
      unfolding rr_slice_def deq prod.case Let_def a b c' d e ..
  qed
  have r2: "remaining s2 ! c = 0" using cn len by (simp add: s2_def s1_def)
  define s' where "s' = s2\<lparr>is_completed := (is_completed s2)[c := True],
               completed := completed s2 + 1,
               procs := (procs s2)[c := (procs s2 ! c)\<lparr>completion_time := current_time s2\<rparr>]\<rparr>"
  have sl: "rr_slice ?n 1 s = s'" using slice r2 by (simp add: s'_def)
  have cm': "c \<noteq> ?m" using c by simp
  have per': "remaining s' ! i = (if i < Suc c then 0 else 1) \<and>
         (is_completed s' ! i \<longleftrightarrow> i < Suc c) \<and> (in_ready_queue s' ! i \<longleftrightarrow> Suc c \<le> i) \<and>
         arrival_time (procs s' ! i) = 0" if i: "i < ?n" for i
  proof (cases "i = c")
    case True
    with per cn len show ?thesis
      by (simp add: s'_def s2_def s1_def)
  next
    case False
    with per i len show ?thesis
      by (auto simp: s'_def s2_def s1_def)
  qed
  have "overfull_at (Suc c) s'"
    unfolding overfull_at_def
    using w1 ql1 tm cm len last cm' per'
    by (simp add: s'_def s2_def s1_def)
  moreover have "rr_iteration ?n 1 s = Next (rr_slice ?n 1 s)"
    using ne by (simp add: rr_iteration_def)
  ultimately show ?thesis by (simp add: sl)
qed

text \<open>The loop: \<open>QUEUE_MAX\<close> slices empty the queue, and the idle scan then finds no arrival
  to come.\<close>

lemma overfull_loop:
  assumes "overfull_at c s" "c \<le> nat QUEUE_MAX"
  shows "\<exists>s'. rr_loop (Suc (nat QUEUE_MAX)) 1 s = Some s' \<and> overfull_at (nat QUEUE_MAX) s'"
  using assms
proof (induction "nat QUEUE_MAX - c" arbitrary: c s)
  case 0
  then have c: "c = nat QUEUE_MAX" by simp
  from "0.prems"(1) have cm: "completed s = nat QUEUE_MAX" and em: "queue_list (q s) = []"
    and tm: "current_time s = int c"
    and arr: "\<forall>i<Suc (nat QUEUE_MAX). arrival_time (procs s ! i) = 0"
    by (simp_all add: overfull_at_def c)
  have "rr_next_arrival_scan s (Suc (nat QUEUE_MAX)) = INT_MAX"
    by (rule rr_next_arrival_scan_none) (use arr tm in simp)
  then have "rr_iteration (Suc (nat QUEUE_MAX)) 1 s = Break"
    using em by (simp add: rr_iteration_def is_empty_queue_list)
  then have "rr_loop (Suc (nat QUEUE_MAX)) 1 s = Some s"
    using cm by (subst rr_loop.simps) simp
  with "0.prems"(1) c show ?case by simp
next
  case (Suc d)
  then have c: "c < nat QUEUE_MAX" by simp
  from overfull_slice [OF Suc.prems(1) c]
  have it: "rr_iteration (Suc (nat QUEUE_MAX)) 1 s = Next (rr_slice (Suc (nat QUEUE_MAX)) 1 s)"
    and J: "overfull_at (Suc c) (rr_slice (Suc (nat QUEUE_MAX)) 1 s)"
    by simp_all
  have "d = nat QUEUE_MAX - Suc c" using Suc.hyps(2) by simp
  from Suc.hyps(1) [OF this J] c obtain s' where
    s': "rr_loop (Suc (nat QUEUE_MAX)) 1 (rr_slice (Suc (nat QUEUE_MAX)) 1 s) = Some s'"
      "overfull_at (nat QUEUE_MAX) s'" by auto
  have "completed s < Suc (nat QUEUE_MAX)"
    using Suc.prems(1) c by (simp add: overfull_at_def)
  then have "rr_loop (Suc (nat QUEUE_MAX)) 1 s = Some s'"
    using it s'(1) by (subst rr_loop.simps) simp
  with s'(2) show ?case by blast
qed

lemma rr_overfull_cell: "rr_cell rr_overfull 1 (nat QUEUE_MAX) = Some (0, 1, 0)"
proof -
  let ?c = "reset_process_states rr_overfull"
  have n: "nat (num_processes ?c) = Suc (nat QUEUE_MAX)"
    by (simp add: rr_overfull_def reset_process_states_def QUEUE_MAX_def)
  from overfull_loop [OF rr_overfull_start] obtain s' where
    s': "rr_loop (Suc (nat QUEUE_MAX)) 1 (rr_start ?c) = Some s'" "overfull_at (nat QUEUE_MAX) s'"
    by auto
  have pos: "\<not> num_processes rr_overfull \<le> 0" by (simp add: rr_overfull_def QUEUE_MAX_def)
  have "round_robin rr_overfull 1 = Some (display_results (?c\<lparr>processes := procs s'\<rparr>) ''RR'')"
    using pos s'(1) n by (simp add: round_robin_def Let_def)
  moreover have "arrival_time (procs s' ! nat QUEUE_MAX) = 0" "burst_time (procs s' ! nat QUEUE_MAX) = 1"
    "completion_time (procs s' ! nat QUEUE_MAX) = 0"
    using s'(2) by (simp_all add: overfull_at_def)
  ultimately show ?thesis
    by (simp add: rr_cell_def display_results_def)
qed

lemma rr_overfull_valid: "valid_input rr_overfull \<and> clock_fits rr_overfull"
proof -
  let ?n = "Suc (nat QUEUE_MAX)"
  have n: "nat (num_processes rr_overfull) = ?n"
    by (simp add: rr_overfull_def QUEUE_MAX_def)
  have len: "length (processes rr_overfull) = ?n" by (simp add: rr_overfull_def)
  have cell: "processes rr_overfull ! i = mk_process (int i + 1) 0 1 0" if "i < ?n" for i
    using that by (simp add: rr_overfull_def del: upt_Suc)
  have v: "valid_input rr_overfull"
    unfolding valid_input_def n
    using len by (simp add: list_all_length cell valid_process_def mk_process_def rr_overfull_def QUEUE_MAX_def)
  have "total_burst rr_overfull = (\<Sum>i<?n. burst_time (processes rr_overfull ! i))"
    unfolding total_burst_def n by (rule sum_list_take_nth) (simp add: len)
  also have "\<dots> = (\<Sum>i<?n. 1)"
    by (rule sum.cong) (simp_all add: cell mk_process_def)
  also have "\<dots> = int ?n" by simp
  finally have t: "total_burst rr_overfull = int ?n" .
  have "clock_fits rr_overfull"
    unfolding clock_fits_def t n
    using len by (simp add: list_all_length cell mk_process_def INT_MAX_def QUEUE_MAX_def)
  with v show ?thesis by simp
qed

text \<open>
  Claim C6, as amended. Take a valid input (at least one process, every process with
  \<open>arrival_time \<ge> 0\<close> and \<open>burst_time > 0\<close>) on which the clock stays within the range of
  \<^verbatim>\<open>int\<close>: the sum of the bursts, added to any arrival time, is at most \<open>INT_MAX\<close>. Then each of
  the three engines returns, and in the context it returns every process has
  \<open>completion_time \<ge> arrival_time + burst_time\<close>: \<^verbatim>\<open>shortest_remaining_time_first\<close>, when the
  bursts are below \<open>INT_MAX\<close>; \<^verbatim>\<open>priority_preemptive_rr\<close> (priorities are C integers, at most
  \<open>INT_MAX\<close>); and \<^verbatim>\<open>round_robin\<close> with \<open>time_quantum > 0\<close>, when the process count is within
  the capacity of its queue. The first two leave every process in its cell with its arrival
  time and burst; round robin returns the processes it was given, reordered. The amendment is
  the condition on the clock, the bound on the bursts for the first engine and the bound on the
  count for round robin.
\<close>

theorem completion_after_arrival_plus_burst:
  assumes "valid_input ctx" "clock_fits ctx"
  shows "(burst_bounded ctx \<longrightarrow>
            (\<exists>ctx'. shortest_remaining_time_first ctx
                   = Some (Inr (ctx', [''Shortest-Remaining_Time-First (SRTF)''])) \<and>
                 map static_fields (processes ctx') = map static_fields (processes ctx) \<and>
                 (\<forall>i<nat (num_processes ctx).
                    arrival_time (processes ctx' ! i) + burst_time (processes ctx' ! i)
                      \<le> completion_time (processes ctx' ! i)))) \<and>
         (valid_priorities ctx \<longrightarrow>
            (\<exists>ctx'. priority_preemptive_rr ctx = Some (ctx', [''PRIORITY_PREEMPTIVE_WITH_RR'']) \<and>
                 map static_fields (processes ctx') = map static_fields (processes ctx) \<and>
                 (\<forall>i<nat (num_processes ctx).
                    arrival_time (processes ctx' ! i) + burst_time (processes ctx' ! i)
                      \<le> completion_time (processes ctx' ! i)))) \<and>
         (0 < tq \<and> num_processes ctx \<le> QUEUE_MAX \<longrightarrow>
            (\<exists>ctx'. round_robin ctx tq = Some (ctx', [''RR'']) \<and>
                 mset (map static_fields (take (nat (num_processes ctx)) (processes ctx')))
                   = mset (map static_fields (take (nat (num_processes ctx)) (processes ctx))) \<and>
                 (\<forall>i<nat (num_processes ctx).
                    arrival_time (processes ctx' ! i) + burst_time (processes ctx' ! i)
                      \<le> completion_time (processes ctx' ! i))))"
proof (intro conjI impI)
  let ?n = "nat (num_processes ctx)"
  let ?c = "reset_process_states ctx"
  assume "burst_bounded ctx"
  from srt_run_good [OF assms(1) this assms(2)] obtain s where
    s: "srt_loop ?n (loop_start ?c) = Some (Inr s)" "good ?n s" "\<not> completed s < ?n"
      "shortest_remaining_time_first ctx =
         Some (Inr (display_results (?c\<lparr>processes := procs s\<rparr>)
                      ''Shortest-Remaining_Time-First (SRTF)''))"
    by blast
  have "map static_fields (procs s) = map static_fields (processes ctx)"
    using srt_loop_static [OF s(1)] loop_start_static [of ctx] by simp
  with s(4) good_bound [OF s(2,3)]
  show "\<exists>ctx'. shortest_remaining_time_first ctx
                   = Some (Inr (ctx', [''Shortest-Remaining_Time-First (SRTF)''])) \<and>
                 map static_fields (processes ctx') = map static_fields (processes ctx) \<and>
                 (\<forall>i<?n. arrival_time (processes ctx' ! i) + burst_time (processes ctx' ! i)
                      \<le> completion_time (processes ctx' ! i))"
    by (simp add: display_results_def)
next
  let ?n = "nat (num_processes ctx)"
  let ?c = "reset_process_states ctx"
  let ?tq = "if time_quantum ctx \<le> 0 then 2 else time_quantum ctx"
  assume "valid_priorities ctx"
  from prio_run_good [OF assms(1) this assms(2)] obtain s where
    s: "prio_loop ?n ?tq (loop_start ?c) = Some s" "good ?n s" "\<not> completed s < ?n"
      "priority_preemptive_rr ctx =
         Some (display_results (?c\<lparr>processes := procs s\<rparr>) ''PRIORITY_PREEMPTIVE_WITH_RR'')"
    by blast
  have "map static_fields (procs s) = map static_fields (processes ctx)"
    using prio_loop_static [OF s(1)] loop_start_static [of ctx] by simp
  with s(4) good_bound [OF s(2,3)]
  show "\<exists>ctx'. priority_preemptive_rr ctx = Some (ctx', [''PRIORITY_PREEMPTIVE_WITH_RR'']) \<and>
                 map static_fields (processes ctx') = map static_fields (processes ctx) \<and>
                 (\<forall>i<?n. arrival_time (processes ctx' ! i) + burst_time (processes ctx' ! i)
                      \<le> completion_time (processes ctx' ! i))"
    by (simp add: display_results_def)
next
  let ?n = "nat (num_processes ctx)"
  let ?c = "reset_process_states ctx"
  assume a: "0 < tq \<and> num_processes ctx \<le> QUEUE_MAX"
  then have tq: "0 < tq" and cap: "num_processes ctx \<le> QUEUE_MAX" by simp_all
  have fits: "rr_fits ctx" using valid_input_fits [OF assms(1) cap] .
  have cfr: "clock_fits ?c" using assms(2) by (simp add: clock_fits_reset)
  from rr_loop_static_total [OF rr_fits_start [OF fits assms(2)] rr_start_good [OF assms(1) cap assms(2)] tq]
  obtain s where s: "rr_loop ?n tq (rr_start ?c) = Some s" "rr_good ?n s" "\<not> completed s < ?n"
    "map static_fields (procs s) = map static_fields (procs (rr_start ?c))" by blast
  have pos: "0 < num_processes ctx" and len: "?n \<le> length (processes ctx)"
    using assms by (simp_all add: valid_input_def)
  have top: "round_robin ctx tq = Some (?c\<lparr>processes := procs s\<rparr>, [''RR''])"
    using tq pos s(1) by (simp add: round_robin_def Let_def display_results_def)
  have "procs (rr_start ?c) = bubble_sort rr_swap (processes ?c) ?n"
    using rr_start_spec(2) [OF rr_fits_reset [OF fits] cfr] by simp
  then have "map static_fields (take ?n (procs s))
      = map static_fields (take ?n (bubble_sort rr_swap (processes ?c) ?n))"
    using s(4) by (simp add: take_map [symmetric])
  then have "mset (map static_fields (take ?n (procs s)))
      = image_mset static_fields (mset (take ?n (bubble_sort rr_swap (processes ?c) ?n)))"
    by simp
  also have "\<dots> = image_mset static_fields (mset (take ?n (processes ?c)))"
    using bubble_sort_take_mset [of ?n "processes ?c" rr_swap] len by simp
  also have "\<dots> = mset (map static_fields (take ?n (processes ?c)))" by simp
  also have "map static_fields (take ?n (processes ?c)) = map static_fields (take ?n (processes ctx))"
    using reset_static [of ctx] by (simp only: take_map [symmetric])
  finally have perm: "mset (map static_fields (take ?n (procs s)))
      = mset (map static_fields (take ?n (processes ctx)))" .
  from top perm rr_good_bound [OF s(2,3)]
  show "\<exists>ctx'. round_robin ctx tq = Some (ctx', [''RR'']) \<and>
                 mset (map static_fields (take ?n (processes ctx')))
                   = mset (map static_fields (take ?n (processes ctx))) \<and>
                 (\<forall>i<?n. arrival_time (processes ctx' ! i) + burst_time (processes ctx' ! i)
                      \<le> completion_time (processes ctx' ! i))"
    by simp
qed

theorem completion_after_arrival_plus_burst_witness:
  "valid_input srt_example \<and> clock_fits srt_example \<and> burst_bounded srt_example \<and>
   valid_priorities srt_example \<and>
   (0::int) < 2 \<and> num_processes srt_example \<le> QUEUE_MAX \<and>
   (\<exists>ctx'. shortest_remaining_time_first srt_example
             = Some (Inr (ctx', [''Shortest-Remaining_Time-First (SRTF)''])) \<and>
           (\<forall>i<2. arrival_time (processes ctx' ! i) + burst_time (processes ctx' ! i)
                      \<le> completion_time (processes ctx' ! i))) \<and>
   (\<exists>ctx'. priority_preemptive_rr srt_example = Some (ctx', [''PRIORITY_PREEMPTIVE_WITH_RR'']) \<and>
           (\<forall>i<2. arrival_time (processes ctx' ! i) + burst_time (processes ctx' ! i)
                      \<le> completion_time (processes ctx' ! i))) \<and>
   (\<exists>ctx'. round_robin srt_example 2 = Some (ctx', [''RR'']) \<and>
           (\<forall>i<2. arrival_time (processes ctx' ! i) + burst_time (processes ctx' ! i)
                      \<le> completion_time (processes ctx' ! i)))"
proof -
  have h1: "valid_input srt_example" by code_simp
  have hc: "clock_fits srt_example" by code_simp
  have h2: "valid_priorities srt_example" by code_simp
  have hb: "burst_bounded srt_example" by code_simp
  have h3: "(0::int) < 2 \<and> num_processes srt_example \<le> QUEUE_MAX" by code_simp
  have n: "nat (num_processes srt_example) = 2" by code_simp
  from completion_after_arrival_plus_burst [OF h1 hc, of 2] h2 h3 hb
  show ?thesis unfolding n using h1 hc by blast
qed

text \<open>
  The claim as stated fails for a process that is still running when the clock reaches
  \<open>INT_MAX\<close>. The one process of \<open>clock_overflow\<close> arrives at \<open>INT_MAX - 1\<close> with burst 2: it is
  valid as the claim reads, and its burst is below \<open>INT_MAX\<close>. Each engine moves the clock to
  \<open>INT_MAX - 1\<close> and runs the two units; the clock passes \<open>INT_MAX\<close> and the completion time
  written is -2147483648, below the arrival time plus the burst.

  It fails for a process that arrives at \<open>INT_MAX\<close> (burst 1): none of the three engines ever
  runs it, since the idle scans keep \<open>INT_MAX\<close> for "no future arrival". Each engine returns
  the context as reset, with the completion time cleared.

  On a burst of \<open>INT_MAX\<close>, with which the clock stays in range, the selection loop of
  \<^verbatim>\<open>shortest_remaining_time_first\<close> reads \<^verbatim>\<open>processes[-1]\<close>: no completion time is produced.

  And \<^verbatim>\<open>round_robin\<close> fails on \<open>rr_overfull\<close>, a valid input with \<open>QUEUE_MAX + 1\<close> processes
  on which the clock stays in range: the queue takes the first \<open>QUEUE_MAX\<close> indices and the
  call of \<^verbatim>\<open>enqueue\<close> for the last one returns through the full-queue branch, with the flag
  of the index set all the same. The process is never run, the run ends at the defensive
  \<^verbatim>\<open>break\<close>, and the cell holds arrival time 0, burst 1 and the cleared completion time 0.
\<close>

theorem completion_bound_counterexample:
  "(valid_input clock_overflow \<and> burst_bounded clock_overflow \<and> valid_priorities clock_overflow \<and>
    num_processes clock_overflow \<le> QUEUE_MAX \<and>
    shortest_remaining_time_first clock_overflow =
      Some (Inr (clock_overflow\<lparr>processes :=
                   [(mk_process 1 (INT_MAX - 1) 2 0)\<lparr>completion_time := - 2147483648\<rparr>]\<rparr>,
                 [''Shortest-Remaining_Time-First (SRTF)''])) \<and>
    priority_preemptive_rr clock_overflow =
      Some (clock_overflow\<lparr>processes :=
              [(mk_process 1 (INT_MAX - 1) 2 0)\<lparr>completion_time := - 2147483648\<rparr>]\<rparr>,
            [''PRIORITY_PREEMPTIVE_WITH_RR'']) \<and>
    round_robin clock_overflow 2 =
      Some (clock_overflow\<lparr>processes :=
              [(mk_process 1 (INT_MAX - 1) 2 0)\<lparr>remaining_time := 2,
                                                completion_time := - 2147483648\<rparr>]\<rparr>,
            [''RR'']) \<and>
    \<not> (arrival_time (mk_process 1 (INT_MAX - 1) 2 0) + burst_time (mk_process 1 (INT_MAX - 1) 2 0)
        \<le> - 2147483648)) \<and>
   (valid_input late_arrival \<and>
    shortest_remaining_time_first late_arrival =
      Some (Inr (reset_process_states late_arrival, [''Shortest-Remaining_Time-First (SRTF)''])) \<and>
    priority_preemptive_rr late_arrival =
      Some (reset_process_states late_arrival, [''PRIORITY_PREEMPTIVE_WITH_RR'']) \<and>
    round_robin late_arrival 2 = Some (reset_process_states late_arrival, [''RR'']) \<and>
    \<not> (arrival_time (processes (reset_process_states late_arrival) ! 0) +
        burst_time (processes (reset_process_states late_arrival) ! 0)
        \<le> completion_time (processes (reset_process_states late_arrival) ! 0))) \<and>
   (valid_input huge_burst \<and> clock_fits huge_burst \<and>
    shortest_remaining_time_first huge_burst = Some (Inl IndexOutOfRange)) \<and>
   (valid_input rr_overfull \<and> clock_fits rr_overfull \<and>
    num_processes rr_overfull = QUEUE_MAX + 1 \<and> (0::int) < 1 \<and>
    rr_cell rr_overfull 1 (nat QUEUE_MAX) = Some (0, 1, 0) \<and>
    \<not> ((0::int) + 1 \<le> 0))"
proof -
  have a: "valid_input clock_overflow \<and> burst_bounded clock_overflow \<and> valid_priorities clock_overflow \<and>
    num_processes clock_overflow \<le> QUEUE_MAX \<and>
    shortest_remaining_time_first clock_overflow =
      Some (Inr (clock_overflow\<lparr>processes :=
                   [(mk_process 1 (INT_MAX - 1) 2 0)\<lparr>completion_time := - 2147483648\<rparr>]\<rparr>,
                 [''Shortest-Remaining_Time-First (SRTF)''])) \<and>
    priority_preemptive_rr clock_overflow =
      Some (clock_overflow\<lparr>processes :=
              [(mk_process 1 (INT_MAX - 1) 2 0)\<lparr>completion_time := - 2147483648\<rparr>]\<rparr>,
            [''PRIORITY_PREEMPTIVE_WITH_RR'']) \<and>
    round_robin clock_overflow 2 =
      Some (clock_overflow\<lparr>processes :=
              [(mk_process 1 (INT_MAX - 1) 2 0)\<lparr>remaining_time := 2,
                                                completion_time := - 2147483648\<rparr>]\<rparr>,
            [''RR'']) \<and>
    \<not> (arrival_time (mk_process 1 (INT_MAX - 1) 2 0) + burst_time (mk_process 1 (INT_MAX - 1) 2 0)
        \<le> - 2147483648)"
    by code_simp
  have b: "valid_input late_arrival \<and>
    shortest_remaining_time_first late_arrival =
      Some (Inr (reset_process_states late_arrival, [''Shortest-Remaining_Time-First (SRTF)''])) \<and>
    priority_preemptive_rr late_arrival =
      Some (reset_process_states late_arrival, [''PRIORITY_PREEMPTIVE_WITH_RR'']) \<and>
    round_robin late_arrival 2 = Some (reset_process_states late_arrival, [''RR'']) \<and>
    \<not> (arrival_time (processes (reset_process_states late_arrival) ! 0) +
        burst_time (processes (reset_process_states late_arrival) ! 0)
        \<le> completion_time (processes (reset_process_states late_arrival) ! 0))"
    by code_simp
  have c: "valid_input huge_burst \<and> clock_fits huge_burst \<and>
    shortest_remaining_time_first huge_burst = Some (Inl IndexOutOfRange)"
    by code_simp
  have d: "valid_input rr_overfull \<and> clock_fits rr_overfull \<and>
    num_processes rr_overfull = QUEUE_MAX + 1 \<and> (0::int) < 1 \<and>
    rr_cell rr_overfull 1 (nat QUEUE_MAX) = Some (0, 1, 0) \<and>
    \<not> ((0::int) + 1 \<le> 0)"
    using rr_overfull_valid rr_overfull_cell by (simp add: rr_overfull_def)
  show ?thesis by (rule conjI [OF a conjI [OF b conjI [OF c d]]])
qed

end
